theory Spec2Isabelle
  imports Main
begin

section \<open>htmldoom.elements: strings, attribute formatting, escaping\<close>

text \<open>
  A Python \<open>str\<close> is modelled as a \<open>string\<close>: one \<open>char\<close> per character of the
  text (the alphabet of the model is U+0000 .. U+00FF).  Exceptions are values of
  \<open>error\<close>; a function that can raise returns \<open>error + 'a\<close>.  \<open>OutsideAlphabet\<close> is
  no exception of the program: it stands where the program goes on with a text that has a
  character above U+00FF, which a \<open>string\<close> cannot hold.
\<close>

datatype error = AttributeError | NameError | TypeError | UnicodeDecodeError | OutsideAlphabet

type_synonym props = "(string \<times> string option) list"

text \<open>\<open>txt.replace(c, r)\<close> for a pattern \<open>c\<close> of one character.\<close>

fun replace_chr :: "char \<Rightarrow> string \<Rightarrow> string \<Rightarrow> string" where
  "replace_chr c r [] = []"
| "replace_chr c r (x # xs) =
     (if x = c then r @ replace_chr c r xs else x # replace_chr c r xs)"

text \<open>
  \<open>html.escape(s)\<close> of the standard library (with its default \<open>quote=True\<close>): five
  calls of \<open>replace\<close>, the ampersand first.
\<close>

definition escape :: "string \<Rightarrow> string" where
  "escape s =
     replace_chr (CHR 0x27) ''&#x27;''
       (replace_chr (CHR 0x22) ''&quot;''
         (replace_chr CHR ''>'' ''&gt;''
           (replace_chr CHR ''<'' ''&lt;''
             (replace_chr CHR ''&'' ''&amp;'' s))))"

text \<open>The entity that stands for one character: what the spec calls entity escaping.\<close>

definition entity :: "char \<Rightarrow> string" where
  "entity c =
     (if c = CHR ''&'' then ''&amp;''
      else if c = CHR ''<'' then ''&lt;''
      else if c = CHR ''>'' then ''&gt;''
      else if c = CHR 0x22 then ''&quot;''
      else if c = CHR 0x27 then ''&#x27;''
      else [c])"

text \<open>\<open>double_quote(txt)\<close>: \<open>'"{}"'.format(txt.replace('"', '\\"'))\<close>.\<close>

definition double_quote :: "string \<Rightarrow> string" where
  "double_quote txt =
     [CHR 0x22] @ replace_chr (CHR 0x22) [CHR 0x5C, CHR 0x22] txt @ [CHR 0x22]"

text \<open>The character class \<open>[a-zA-Z_]\<close> and \<open>re.sub("[a-zA-Z_]", "", key)\<close>.\<close>

definition is_letter :: "char \<Rightarrow> bool" where
  "is_letter c =
     (((97::nat) \<le> of_char c \<and> of_char c \<le> (122::nat)) \<or>
      ((65::nat) \<le> of_char c \<and> of_char c \<le> (90::nat)) \<or> c = CHR ''_'')"

definition sub_letters :: "string \<Rightarrow> string" where
  "sub_letters key = filter (\<lambda>c. \<not> is_letter c) key"

definition fmt_prop :: "string \<Rightarrow> string option \<Rightarrow> string" where
  "fmt_prop key val =
     (case val of
        None \<Rightarrow> (if sub_letters key \<noteq> [] then double_quote key else key)
      | Some v \<Rightarrow> key @ ''='' @ double_quote v)"

text \<open>\<open>sep.join(xs)\<close>.\<close>

fun join :: "string \<Rightarrow> string list \<Rightarrow> string" where
  "join sep [] = []"
| "join sep [x] = x"
| "join sep (x # y # ys) = x @ sep @ join sep (y # ys)"

definition fmt_props :: "props \<Rightarrow> string" where
  "fmt_props ps =
     (if ps = [] then [] else '' '' @ join '' '' (map (\<lambda>x. fmt_prop (fst x) (snd x)) ps))"

text \<open>
  \<open>tmf_props(**props)\<close>.  With no attributes it returns the empty string.  Otherwise the
  first statement of the loop body is \<open>if not v:\<close>, and the name \<open>v\<close> is bound neither in
  the function nor in the module nor in \<open>builtins\<close>: the first iteration raises
  \<open>NameError\<close>, and nothing of the rest of the body is ever run.
\<close>

definition tmf_props :: "props \<Rightarrow> error + string" where
  "tmf_props ps = (if ps = [] then Inr [] else Inl NameError)"

text \<open>What the spec's words ask of a backslash-quoted attribute value.\<close>

definition backslash_quoted :: "string \<Rightarrow> string" where
  "backslash_quoted v =
     [CHR 0x22] @ concat (map (\<lambda>c. if c = CHR 0x22 then [CHR 0x5C, CHR 0x22] else [c]) v)
       @ [CHR 0x22]"


section \<open>Python values, classes and the object store\<close>

text \<open>\<open>str(i)\<close> of an integer and \<open>bytes.decode("utf-8")\<close>.\<close>

fun digits :: "nat \<Rightarrow> string" where
  "digits n =
     (if n < 10 then [char_of (48 + n)] else digits (n div 10) @ [char_of (48 + n mod 10)])"

declare digits.simps [simp del]

definition str_int :: "int \<Rightarrow> string" where
  "str_int i = (if i < 0 then ''-'' @ digits (nat (- i)) else digits (nat i))"

text \<open>
  \<open>bytes.decode("utf-8")\<close>, with the default \<open>errors="strict"\<close>.  \<open>utf8_decode\<close> gives the
  code points of a byte sequence, or raises: a lead byte below 0x80 stands for itself;
  0xC2 .. 0xDF take one continuation byte, 0xE0 .. 0xEF two and 0xF0 .. 0xF4 three; after
  0xE0 the first continuation byte is at least 0xA0 (no overlong form), after 0xED it is
  below 0xA0 (no surrogate), after 0xF0 it is at least 0x90 and after 0xF4 it is below
  0x90 (nothing above U+10FFFF); every other byte, and a sequence cut short, is an error.
\<close>

definition continuation :: "char \<Rightarrow> bool" where
  "continuation c = (128 \<le> (of_char c :: int) \<and> (of_char c :: int) < 192)"

definition low6 :: "char \<Rightarrow> int" where
  "low6 c = of_char c - 128"

fun utf8_decode :: "string \<Rightarrow> error + int list" where
  "utf8_decode [] = Inr []"
| "utf8_decode (b # bs) =
     (let n = (of_char b :: int) in
      if n < 128 then
        (case utf8_decode bs of Inl e \<Rightarrow> Inl e | Inr ps \<Rightarrow> Inr (n # ps))
      else if 194 \<le> n \<and> n < 224 then
        (case bs of
           c # r \<Rightarrow>
             if continuation c then
               (case utf8_decode r of
                  Inl e \<Rightarrow> Inl e
                | Inr ps \<Rightarrow> Inr (((n - 192) * 64 + low6 c) # ps))
             else Inl UnicodeDecodeError
         | _ \<Rightarrow> Inl UnicodeDecodeError)
      else if 224 \<le> n \<and> n < 240 then
        (case bs of
           c # d # r \<Rightarrow>
             if continuation c \<and> continuation d \<and>
                (if n = 224 then 160 \<le> (of_char c :: int) else True) \<and>
                (if n = 237 then (of_char c :: int) < 160 else True) then
               (case utf8_decode r of
                  Inl e \<Rightarrow> Inl e
                | Inr ps \<Rightarrow> Inr (((n - 224) * 4096 + low6 c * 64 + low6 d) # ps))
             else Inl UnicodeDecodeError
         | _ \<Rightarrow> Inl UnicodeDecodeError)
      else if 240 \<le> n \<and> n < 245 then
        (case bs of
           c # d # e # r \<Rightarrow>
             if continuation c \<and> continuation d \<and> continuation e \<and>
                (if n = 240 then 144 \<le> (of_char c :: int) else True) \<and>
                (if n = 244 then (of_char c :: int) < 144 else True) then
               (case utf8_decode r of
                  Inl x \<Rightarrow> Inl x
                | Inr ps \<Rightarrow>
                    Inr (((n - 240) * 262144 + low6 c * 4096 + low6 d * 64 + low6 e) # ps))
             else Inl UnicodeDecodeError
         | _ \<Rightarrow> Inl UnicodeDecodeError)
      else Inl UnicodeDecodeError)"

text \<open>
  The decoded text as a \<open>string\<close>, when every code point is in the alphabet of the model.
\<close>

definition decode_utf8 :: "string \<Rightarrow> error + string" where
  "decode_utf8 b =
     (case utf8_decode b of
        Inl e \<Rightarrow> Inl e
      | Inr ps \<Rightarrow>
          if list_all (\<lambda>p. p < 256) ps then Inr (map char_of ps) else Inl OutsideAlphabet)"

text \<open>
  A reference is the address of an object in the store.  A content argument is a
  \<open>str\<close>, a \<open>bytes\<close> or any other (hashable) value; the values that are neither
  \<open>str\<close> nor \<open>bytes\<close> are \<open>None\<close>, an \<open>int\<close> or a node.
\<close>

type_synonym ref = nat

datatype val = VNone | VInt int | VNode ref

datatype arg = AStr string | ABytes string | AVal val

datatype pyval = PNone | PInt int | PStr string | PProps props | PVal val | PTuple "val list"

text \<open>
  The classes that have instances: the text and declaration classes, and the tag
  classes.  \<open>C_Tag i n b t\<close> is a class with \<open>__name__\<close> \<open>n\<close>, the one base \<open>b\<close> and
  the class attribute \<open>tagname = t\<close>.  The classes of the module have \<open>i = 0\<close>; the
  \<open>i\<close>-th class made at run time by \<open>type(name, bases, dict)\<close> has the identity \<open>i\<close>.
  (The classes \<open>Script\<close> and \<open>Style\<close>, which override \<open>__call__\<close>, are not part of
  the model.)
\<close>

datatype base = LeafTag | SingleChildTag | CompositeTag

datatype cls = C_RawText | C_Text | C_Comment | C_DocType | C_Tag nat string base string

datatype pytype = T_object | T_DOMCitizen | T_Declaration | T_Tag | T_Base base | T_Of cls

fun mro :: "cls \<Rightarrow> pytype list" where
  "mro C_RawText = [T_Of C_RawText, T_DOMCitizen, T_object]"
| "mro C_Text = [T_Of C_Text, T_DOMCitizen, T_object]"
| "mro C_Comment = [T_Of C_Comment, T_Declaration, T_DOMCitizen, T_object]"
| "mro C_DocType = [T_Of C_DocType, T_Declaration, T_DOMCitizen, T_object]"
| "mro (C_Tag i n b t) = [T_Of (C_Tag i n b t), T_Base b, T_Tag, T_DOMCitizen, T_object]"

text \<open>The methods each class body defines, and attribute lookup along the MRO.\<close>

fun class_body :: "pytype \<Rightarrow> string list" where
  "class_body T_object =
     [''__init__'', ''__setattr__'', ''__eq__'', ''__hash__'', ''__repr__'', ''__str__'']"
| "class_body T_DOMCitizen =
     [''__init__'', ''_set_dom_properties'', ''_setattr'', ''prefixed_repr'', ''__eq__'',
      ''__hash__'', ''__setattr__'', ''__repr__'', ''__str__'']"
| "class_body T_Declaration = []"
| "class_body T_Tag = [''__init__'']"
| "class_body (T_Base LeafTag) = [''__init__'', ''__repr__'']"
| "class_body (T_Base SingleChildTag) = [''__init__'', ''__call__'', ''__repr__'']"
| "class_body (T_Base CompositeTag) = [''__init__'', ''__call__'', ''__repr__'']"
| "class_body (T_Of (C_Tag i n b t)) = []"
| "class_body (T_Of c) = [''__init__'', ''__repr__'']"

definition lookup :: "cls \<Rightarrow> string \<Rightarrow> pytype option" where
  "lookup c name = find (\<lambda>t. name \<in> set (class_body t)) (mro c)"

definition isinstance :: "cls \<Rightarrow> cls \<Rightarrow> bool" where
  "isinstance c k = (T_Of k \<in> set (mro c))"

fun tagname :: "cls \<Rightarrow> string" where
  "tagname (C_Tag i n b t) = t"

fun cname :: "cls \<Rightarrow> string" where
  "cname C_RawText = ''_RawText''"
| "cname C_Text = ''_Text''"
| "cname C_Comment = ''_Comment''"
| "cname C_DocType = ''DocType''"
| "cname (C_Tag i n b t) = n"

text \<open>
  An object: its class and its slots.  A slot that is not set yet holds a default; no
  method reads a slot before the constructor has set it.
\<close>

record obj =
  ocls :: cls
  o_hash :: int
  o_html :: string
  o_value :: string
  o_props :: props
  o_child :: val
  o_children :: "val list"

definition blank :: "cls \<Rightarrow> obj" where
  "blank c = \<lparr>ocls = c, o_hash = 0, o_html = [], o_value = [], o_props = [],
              o_child = VNone, o_children = []\<rparr>"

text \<open>
  \<open>object.__setattr__(ob, name, value)\<close>.  The slots are typed in the model, and the
  program only ever stores a value of the slot's type.
\<close>

definition object_setattr :: "obj \<Rightarrow> string \<Rightarrow> pyval \<Rightarrow> obj" where
  "object_setattr ob name v =
     (if name = ''_hash'' then (case v of PInt h \<Rightarrow> ob\<lparr>o_hash := h\<rparr> | _ \<Rightarrow> ob)
      else if name = ''html'' then (case v of PStr s \<Rightarrow> ob\<lparr>o_html := s\<rparr> | _ \<Rightarrow> ob)
      else if name = ''value'' then (case v of PStr s \<Rightarrow> ob\<lparr>o_value := s\<rparr> | _ \<Rightarrow> ob)
      else if name = ''props'' then (case v of PProps p \<Rightarrow> ob\<lparr>o_props := p\<rparr> | _ \<Rightarrow> ob)
      else if name = ''child'' then (case v of PVal c \<Rightarrow> ob\<lparr>o_child := c\<rparr> | _ \<Rightarrow> ob)
      else if name = ''children'' then
        (case v of PTuple cs \<Rightarrow> ob\<lparr>o_children := cs\<rparr> | _ \<Rightarrow> ob)
      else ob)"

text \<open>
  The keys of the \<open>lru_cache\<close> dictionaries.  Two keys are equal when Python's \<open>==\<close>
  holds of the arguments: a node is compared by \<open>_DOMCitizen.__eq__\<close>, that is by its
  class and its \<open>html\<close>.
\<close>

datatype key = KNone | KInt int | KStr string | KBytes string | KNode cls string

type_synonym 'k lru = "('k \<times> ref) list"

text \<open>
  The state of the process: the hash function of \<open>str\<close> (fixed when the process
  starts), the object store, the number of classes made by \<open>type\<close>, and one cache for
  each decorated class or method.  A cache lists its entries, the most recently used
  first.
\<close>

record world =
  hash_str :: "string \<Rightarrow> int"
  heap :: "obj list"
  n_types :: nat
  c_RawText :: "string lru"
  c_Text :: "string lru"
  c_Comment :: "string lru"
  c_class :: "cls \<Rightarrow> (string list \<times> props) lru"
  c_call1 :: "key list lru"
  c_calln :: "key list lru"

definition init_world :: "(string \<Rightarrow> int) \<Rightarrow> world" where
  "init_world h = \<lparr>hash_str = h, heap = [], n_types = 0, c_RawText = [], c_Text = [],
                   c_Comment = [], c_class = (\<lambda>c. []), c_call1 = [], c_calln = []\<rparr>"

definition MAX_CACHE_SIZE :: nat where
  "MAX_CACHE_SIZE = 12800"

definition lru_hit :: "'k lru \<Rightarrow> 'k \<Rightarrow> ref \<Rightarrow> 'k lru" where
  "lru_hit c k r = (k, r) # filter (\<lambda>e. fst e \<noteq> k) c"

definition lru_store :: "'k lru \<Rightarrow> 'k \<Rightarrow> ref \<Rightarrow> 'k lru" where
  "lru_store c k r = (if MAX_CACHE_SIZE \<le> length c then (k, r) # butlast c else (k, r) # c)"

text \<open>
  \<open>functools.lru_cache(maxsize=MAX_CACHE_SIZE)\<close> around a function \<open>f\<close>: a hit returns
  the stored object and makes its entry the most recent one; a miss runs \<open>f\<close> and stores
  the result, evicting the least recently used entry of a full cache.  Nothing is stored
  when \<open>f\<close> raises.
\<close>

definition lru_cache ::
  "(world \<Rightarrow> 'k lru) \<Rightarrow> (('k lru \<Rightarrow> 'k lru) \<Rightarrow> world \<Rightarrow> world) \<Rightarrow> 'k \<Rightarrow>
   (world \<Rightarrow> ref \<times> world) \<Rightarrow> world \<Rightarrow> ref \<times> world" where
  "lru_cache get upd k f w =
     (case map_of (get w) k of
        Some r \<Rightarrow> (r, upd (\<lambda>c. lru_hit c k r) w)
      | None \<Rightarrow> (case f w of (r, w1) \<Rightarrow> (r, upd (\<lambda>c. lru_store c k r) w1)))"

definition lru_cache_exc ::
  "(world \<Rightarrow> 'k lru) \<Rightarrow> (('k lru \<Rightarrow> 'k lru) \<Rightarrow> world \<Rightarrow> world) \<Rightarrow> 'k \<Rightarrow>
   (world \<Rightarrow> (error + ref) \<times> world) \<Rightarrow> world \<Rightarrow> (error + ref) \<times> world" where
  "lru_cache_exc get upd k f w =
     (case map_of (get w) k of
        Some r \<Rightarrow> (Inr r, upd (\<lambda>c. lru_hit c k r) w)
      | None \<Rightarrow>
          (case f w of
             (Inl e, w1) \<Rightarrow> (Inl e, w1)
           | (Inr r, w1) \<Rightarrow> (Inr r, upd (\<lambda>c. lru_store c k r) w1)))"


section \<open>The node classes\<close>

subsection \<open>\<open>_DOMCitizen\<close>\<close>

definition new_object :: "cls \<Rightarrow> world \<Rightarrow> ref \<times> world" where
  "new_object c w = (length (heap w), w\<lparr>heap := heap w @ [blank c]\<rparr>)"

text \<open>\<open>self._setattr(name, value)\<close>, which is \<open>super().__setattr__(name, value)\<close>.\<close>

definition DOMCitizen_setattr :: "ref \<Rightarrow> string \<Rightarrow> pyval \<Rightarrow> world \<Rightarrow> world" where
  "DOMCitizen_setattr self name v w =
     w\<lparr>heap := (heap w)[self := object_setattr (heap w ! self) name v]\<rparr>"

definition set_dom_properties :: "ref \<Rightarrow> string \<Rightarrow> world \<Rightarrow> world" where
  "set_dom_properties self html w =
     DOMCitizen_setattr self ''html'' (PStr html)
       (DOMCitizen_setattr self ''_hash'' (PInt (hash_str w html)) w)"

text \<open>\<open>__str__\<close>, \<open>__hash__\<close> and \<open>__eq__\<close> of a node, and \<open>str\<close> of a stored value.\<close>

definition DOMCitizen_str :: "world \<Rightarrow> ref \<Rightarrow> string" where
  "DOMCitizen_str w self = o_html (heap w ! self)"

definition DOMCitizen_hash :: "world \<Rightarrow> ref \<Rightarrow> int" where
  "DOMCitizen_hash w self = o_hash (heap w ! self)"

definition DOMCitizen_eq :: "world \<Rightarrow> ref \<Rightarrow> ref \<Rightarrow> bool" where
  "DOMCitizen_eq w self other =
     (isinstance (ocls (heap w ! other)) (ocls (heap w ! self)) \<and>
      o_html (heap w ! self) = o_html (heap w ! other))"

fun py_str :: "world \<Rightarrow> val \<Rightarrow> string" where
  "py_str w VNone = ''None''"
| "py_str w (VInt i) = str_int i"
| "py_str w (VNode r) = DOMCitizen_str w r"

text \<open>
  The statement \<open>node.name = value\<close>: the \<open>__setattr__\<close> found along the MRO of the
  node's class runs.  The one of \<open>_DOMCitizen\<close> raises; the one of \<open>object\<close> stores.
\<close>

definition setattr_stmt :: "ref \<Rightarrow> string \<Rightarrow> pyval \<Rightarrow> world \<Rightarrow> (error + unit) \<times> world" where
  "setattr_stmt r name v w =
     (case lookup (ocls (heap w ! r)) ''__setattr__'' of
        Some T_DOMCitizen \<Rightarrow> (Inl AttributeError, w)
      | _ \<Rightarrow> (Inr (), w\<lparr>heap := (heap w)[r := object_setattr (heap w ! r) name v]\<rparr>))"

subsection \<open>\<open>_RawText\<close>, \<open>_Text\<close>, \<open>_Comment\<close>, \<open>DocType\<close>\<close>

definition RawText_init :: "string \<Rightarrow> world \<Rightarrow> ref \<times> world" where
  "RawText_init v w =
     (case new_object C_RawText w of (self, w1) \<Rightarrow>
        (self, set_dom_properties self v (DOMCitizen_setattr self ''value'' (PStr v) w1)))"

definition RawText :: "string \<Rightarrow> world \<Rightarrow> ref \<times> world" where
  "RawText v = lru_cache c_RawText c_RawText_update v (RawText_init v)"

definition Text_init :: "string \<Rightarrow> world \<Rightarrow> ref \<times> world" where
  "Text_init v w =
     (case new_object C_Text w of (self, w1) \<Rightarrow>
        (self, set_dom_properties self (escape v)
                 (DOMCitizen_setattr self ''value'' (PStr v) w1)))"

definition Text :: "string \<Rightarrow> world \<Rightarrow> ref \<times> world" where
  "Text v = lru_cache c_Text c_Text_update v (Text_init v)"

definition Comment_init :: "string \<Rightarrow> world \<Rightarrow> ref \<times> world" where
  "Comment_init v w =
     (case new_object C_Comment w of (self, w1) \<Rightarrow>
        (self, set_dom_properties self (''<!-- '' @ escape v @ '' -->'')
                 (DOMCitizen_setattr self ''value'' (PStr v) w1)))"

definition Comment :: "string \<Rightarrow> world \<Rightarrow> ref \<times> world" where
  "Comment v = lru_cache c_Comment c_Comment_update v (Comment_init v)"

text \<open>\<open>d[k] = v\<close> on a dictionary, which keeps the order of insertion.\<close>

definition dict_set :: "props \<Rightarrow> string \<Rightarrow> string option \<Rightarrow> props" where
  "dict_set d k v =
     (if k \<in> fst ` set d then map (\<lambda>e. if fst e = k then (k, v) else e) d
      else d @ [(k, v)])"

definition DocType :: "string list \<Rightarrow> world \<Rightarrow> ref \<times> world" where
  "DocType attrs w =
     (case new_object C_DocType w of (self, w1) \<Rightarrow>
        (let w2 = DOMCitizen_setattr self ''props''
                    (PProps (foldl (\<lambda>d x. dict_set d x None) [] attrs)) w1
         in (self, set_dom_properties self
                     (''<!DOCTYPE'' @ fmt_props (o_props (heap w2 ! self)) @ ''>'') w2)))"

subsection \<open>Tags\<close>

text \<open>\<open>_Tag.__init__(self, *attrs, **props)\<close>.\<close>

definition Tag_init :: "ref \<Rightarrow> string list \<Rightarrow> props \<Rightarrow> world \<Rightarrow> world" where
  "Tag_init self attrs kw w =
     DOMCitizen_setattr self ''props'' (PProps (foldl (\<lambda>d k. dict_set d k None) kw attrs)) w"

definition LeafTag_init :: "ref \<Rightarrow> string list \<Rightarrow> props \<Rightarrow> world \<Rightarrow> world" where
  "LeafTag_init self attrs kw w =
     (let w1 = Tag_init self attrs kw w
      in set_dom_properties self
           (''<'' @ tagname (ocls (heap w1 ! self)) @ fmt_props (o_props (heap w1 ! self))
              @ '' />'') w1)"

definition SingleChildTag_init :: "ref \<Rightarrow> string list \<Rightarrow> props \<Rightarrow> world \<Rightarrow> world" where
  "SingleChildTag_init self attrs kw w =
     (let w1 = Tag_init self attrs kw w
      in case Text [] w1 of (t, w2) \<Rightarrow>
        (let w3 = DOMCitizen_setattr self ''child'' (PVal (VNode t)) w2
         in set_dom_properties self
              (''<'' @ tagname (ocls (heap w3 ! self)) @ fmt_props (o_props (heap w3 ! self))
                 @ ''>'' @ py_str w3 (o_child (heap w3 ! self))
                 @ ''</'' @ tagname (ocls (heap w3 ! self)) @ ''>'') w3))"

definition CompositeTag_init :: "ref \<Rightarrow> string list \<Rightarrow> props \<Rightarrow> world \<Rightarrow> world" where
  "CompositeTag_init self attrs kw w =
     (let w1 = Tag_init self attrs kw w;
          w2 = DOMCitizen_setattr self ''children'' (PTuple []) w1
      in set_dom_properties self
           (''<'' @ tagname (ocls (heap w2 ! self)) @ fmt_props (o_props (heap w2 ! self))
              @ ''></'' @ tagname (ocls (heap w2 ! self)) @ ''>'') w2)"

text \<open>A new object of a tag class, and the body of the \<open>__init__\<close> of the class's base.\<close>

fun create :: "cls \<Rightarrow> string list \<Rightarrow> props \<Rightarrow> world \<Rightarrow> ref \<times> world" where
  "create (C_Tag i n b t) attrs kw w =
     (case new_object (C_Tag i n b t) w of (self, w1) \<Rightarrow>
        (self, case b of
                 LeafTag \<Rightarrow> LeafTag_init self attrs kw w1
               | SingleChildTag \<Rightarrow> SingleChildTag_init self attrs kw w1
               | CompositeTag \<Rightarrow> CompositeTag_init self attrs kw w1))"

text \<open>
  Calling a tag class with the flags \<open>attrs\<close> and the keyword arguments \<open>kw\<close>.  The
  arguments are bound to the parameters \<open>(self, *attrs, **props)\<close> of \<open>__init__\<close>: a keyword
  argument named \<open>self\<close> meets the parameter that the new object already fills, and the
  call raises \<open>TypeError\<close> (the new object is dropped).
\<close>

definition instantiate ::
  "cls \<Rightarrow> string list \<Rightarrow> props \<Rightarrow> world \<Rightarrow> (error + ref) \<times> world" where
  "instantiate c attrs kw w =
     (if ''self'' \<in> fst ` set kw then (Inl TypeError, w)
      else case create c attrs kw w of (self, w1) \<Rightarrow> (Inr self, w1))"

text \<open>A class under \<open>@lru_cache(maxsize=MAX_CACHE_SIZE)\<close>: its name is bound to the cache.\<close>

definition cached_class ::
  "cls \<Rightarrow> string list \<Rightarrow> props \<Rightarrow> world \<Rightarrow> (error + ref) \<times> world" where
  "cached_class c attrs kw =
     lru_cache_exc (\<lambda>w. c_class w c) (\<lambda>g. c_class_update (\<lambda>m. m(c := g (m c))))
       (attrs, kw) (instantiate c attrs kw)"

text \<open>
  \<open>type(self.__class__.__name__, self.__class__.__bases__, self.__class__.__dict__.copy())\<close>:
  a new class with the name, the bases and the attributes of the class of \<open>self\<close>.
\<close>

fun type_copy :: "cls \<Rightarrow> world \<Rightarrow> cls \<times> world" where
  "type_copy (C_Tag i n b t) w =
     (C_Tag (Suc (n_types w)) n b t, w\<lparr>n_types := Suc (n_types w)\<rparr>)"

definition key_of :: "world \<Rightarrow> arg \<Rightarrow> key" where
  "key_of w a =
     (case a of
        AStr s \<Rightarrow> KStr s
      | ABytes b \<Rightarrow> KBytes b
      | AVal VNone \<Rightarrow> KNone
      | AVal (VInt i) \<Rightarrow> KInt i
      | AVal (VNode r) \<Rightarrow> KNode (ocls (heap w ! r)) (o_html (heap w ! r)))"

text \<open>
  The normalisation of one content argument (\<open>str\<close> to \<open>_Text\<close>, \<open>bytes\<close> to
  \<open>_RawText\<close>, anything else as it is), and the loop over the arguments.
\<close>

definition normalize :: "arg \<Rightarrow> world \<Rightarrow> (error + val) \<times> world" where
  "normalize c w =
     (case c of
        AStr s \<Rightarrow> (case Text s w of (r, w1) \<Rightarrow> (Inr (VNode r), w1))
      | ABytes b \<Rightarrow>
          (case decode_utf8 b of
             Inl e \<Rightarrow> (Inl e, w)
           | Inr s \<Rightarrow> (case RawText s w of (r, w1) \<Rightarrow> (Inr (VNode r), w1)))
      | AVal v \<Rightarrow> (Inr v, w))"

fun normalize_all :: "arg list \<Rightarrow> world \<Rightarrow> (error + val list) \<times> world" where
  "normalize_all [] w = (Inr [], w)"
| "normalize_all (c # cs) w =
     (case normalize c w of
        (Inl e, w1) \<Rightarrow> (Inl e, w1)
      | (Inr v, w1) \<Rightarrow>
          (case normalize_all cs w1 of
             (Inl e, w2) \<Rightarrow> (Inl e, w2)
           | (Inr vs, w2) \<Rightarrow> (Inr (v # vs), w2)))"

text \<open>The body of \<open>_SingleChildTag.__call__(self, child)\<close>.\<close>

definition SingleChildTag_call_body :: "ref \<Rightarrow> arg \<Rightarrow> world \<Rightarrow> (error + ref) \<times> world" where
  "SingleChildTag_call_body self child w =
     (case normalize child w of
        (Inl e, w1) \<Rightarrow> (Inl e, w1)
      | (Inr c, w1) \<Rightarrow>
          (case type_copy (ocls (heap w1 ! self)) w1 of (k, w2) \<Rightarrow>
           case instantiate k [] (o_props (heap w2 ! self)) w2 of
             (Inl e, w3) \<Rightarrow> (Inl e, w3)
           | (Inr tag, w3) \<Rightarrow>
               (let w4 = DOMCitizen_setattr tag ''child'' (PVal c) w3
                in (Inr tag,
                    set_dom_properties tag
                      (''<'' @ tagname (ocls (heap w4 ! tag)) @ fmt_props (o_props (heap w4 ! tag))
                         @ ''>'' @ py_str w4 (o_child (heap w4 ! tag))
                         @ ''</'' @ tagname (ocls (heap w4 ! tag)) @ ''>'') w4))))"

definition SingleChildTag_call :: "ref \<Rightarrow> arg \<Rightarrow> world \<Rightarrow> (error + ref) \<times> world" where
  "SingleChildTag_call self child w =
     lru_cache_exc c_call1 c_call1_update [key_of w (AVal (VNode self)), key_of w child]
       (SingleChildTag_call_body self child) w"

text \<open>The body of \<open>_CompositeTag.__call__(self, *children)\<close>.\<close>

definition CompositeTag_call_body :: "ref \<Rightarrow> arg list \<Rightarrow> world \<Rightarrow> (error + ref) \<times> world" where
  "CompositeTag_call_body self children w =
     (case normalize_all children w of
        (Inl e, w1) \<Rightarrow> (Inl e, w1)
      | (Inr cs, w1) \<Rightarrow>
          (case type_copy (ocls (heap w1 ! self)) w1 of (k, w2) \<Rightarrow>
           case instantiate k [] (o_props (heap w2 ! self)) w2 of
             (Inl e, w3) \<Rightarrow> (Inl e, w3)
           | (Inr tag, w3) \<Rightarrow>
               (let w4 = DOMCitizen_setattr tag ''children'' (PTuple cs) w3
                in (Inr tag,
                    set_dom_properties tag
                      (''<'' @ tagname (ocls (heap w4 ! tag)) @ fmt_props (o_props (heap w4 ! tag))
                         @ ''>'' @ concat (map (py_str w4) (o_children (heap w4 ! tag)))
                         @ ''</'' @ tagname (ocls (heap w4 ! tag)) @ ''>'') w4))))"

definition CompositeTag_call :: "ref \<Rightarrow> arg list \<Rightarrow> world \<Rightarrow> (error + ref) \<times> world" where
  "CompositeTag_call self children w =
     lru_cache_exc c_calln c_calln_update
       (key_of w (AVal (VNode self)) # map (key_of w) children)
       (CompositeTag_call_body self children) w"

text \<open>
  \<open>_LeafTag.__repr__\<close>: \<open>f"{self.__class__.__name__}({tmf_props(**self.props)})"\<close>.  The
  \<open>__repr__\<close> of the other tag classes and of \<open>DocType\<close> starts with the same expression.
\<close>

definition LeafTag_repr :: "world \<Rightarrow> ref \<Rightarrow> error + string" where
  "LeafTag_repr w self =
     (case tmf_props (o_props (heap w ! self)) of
        Inl e \<Rightarrow> Inl e
      | Inr s \<Rightarrow> Inr (cname (ocls (heap w ! self)) @ ''('' @ s @ '')''))"

subsection \<open>Some classes of the catalogue\<close>

text \<open>
  Every tag class of the module is decorated with \<open>lru_cache\<close>, but \<open>Sub\<close>, whose name
  is bound to the class itself.
\<close>

definition Br :: "string list \<Rightarrow> props \<Rightarrow> world \<Rightarrow> (error + ref) \<times> world" where
  "Br = cached_class (C_Tag 0 ''Br'' LeafTag ''br'')"

definition Input :: "string list \<Rightarrow> props \<Rightarrow> world \<Rightarrow> (error + ref) \<times> world" where
  "Input = cached_class (C_Tag 0 ''Input'' LeafTag ''input'')"

definition Title :: "string list \<Rightarrow> props \<Rightarrow> world \<Rightarrow> (error + ref) \<times> world" where
  "Title = cached_class (C_Tag 0 ''Title'' SingleChildTag ''title'')"

definition Div :: "string list \<Rightarrow> props \<Rightarrow> world \<Rightarrow> (error + ref) \<times> world" where
  "Div = cached_class (C_Tag 0 ''Div'' CompositeTag ''div'')"

definition P :: "string list \<Rightarrow> props \<Rightarrow> world \<Rightarrow> (error + ref) \<times> world" where
  "P = cached_class (C_Tag 0 ''P'' CompositeTag ''p'')"

definition Sub :: "string list \<Rightarrow> props \<Rightarrow> world \<Rightarrow> (error + ref) \<times> world" where
  "Sub = instantiate (C_Tag 0 ''Sub'' CompositeTag ''sub'')"


section \<open>The invariant of the process state\<close>

text \<open>An object with all its fields given.\<close>

definition mk_obj :: "(string \<Rightarrow> int) \<Rightarrow> cls \<Rightarrow> string \<Rightarrow> string \<Rightarrow> props \<Rightarrow> val \<Rightarrow> val list \<Rightarrow> obj" where
  "mk_obj h c html v ps ch chs =
     \<lparr>ocls = c, o_hash = h html, o_html = html, o_value = v, o_props = ps, o_child = ch,
      o_children = chs\<rparr>"

text \<open>A value, and a content argument, that refers only to objects of the store.\<close>

fun val_ok :: "world \<Rightarrow> val \<Rightarrow> bool" where
  "val_ok w (VNode r) = (r < length (heap w))"
| "val_ok w v = True"

fun arg_ok :: "world \<Rightarrow> arg \<Rightarrow> bool" where
  "arg_ok w (AVal v) = val_ok w v"
| "arg_ok w a = True"

text \<open>
  The classes made at run time by \<open>type(name, bases, dict)\<close> are the copies; \<open>clone_of c k\<close>
  says that \<open>k\<close> is a later copy with the name, base and tag name of \<open>c\<close>.
\<close>

fun is_clone :: "cls \<Rightarrow> bool" where
  "is_clone (C_Tag i n b t) = (0 < i)"
| "is_clone c = False"

fun is_module_tag :: "cls \<Rightarrow> bool" where
  "is_module_tag (C_Tag i n b t) = (i = 0)"
| "is_module_tag c = False"

fun clone_of :: "cls \<Rightarrow> cls \<Rightarrow> bool" where
  "clone_of (C_Tag i n b t) (C_Tag j m b' t') = (i < j \<and> m = n \<and> b' = b \<and> t' = t)"
| "clone_of c k = False"

fun has_base :: "cls \<Rightarrow> base \<Rightarrow> bool" where
  "has_base (C_Tag i n b t) b' = (b = b')"
| "has_base c b' = False"

text \<open>
  What the constructors and the calls establish of every object: the stored hash is the
  hash of the rendered text, and the rendered text is the one its class builds from its
  value, attributes and children.  An object of a class of the module has no content.
\<close>

definition obj_ok :: "world \<Rightarrow> obj \<Rightarrow> bool" where
  "obj_ok w ob =
     (o_hash ob = hash_str w (o_html ob) \<and>
      (case ocls ob of
         C_RawText \<Rightarrow> o_html ob = o_value ob
       | C_Text \<Rightarrow> o_html ob = escape (o_value ob)
       | C_Comment \<Rightarrow> o_html ob = ''<!-- '' @ escape (o_value ob) @ '' -->''
       | C_DocType \<Rightarrow> o_html ob = ''<!DOCTYPE'' @ fmt_props (o_props ob) @ ''>''
       | C_Tag i n b t \<Rightarrow>
           i \<le> n_types w \<and>
           (case b of
              LeafTag \<Rightarrow> o_html ob = ''<'' @ t @ fmt_props (o_props ob) @ '' />''
            | SingleChildTag \<Rightarrow>
                val_ok w (o_child ob) \<and>
                o_html ob = ''<'' @ t @ fmt_props (o_props ob) @ ''>'' @ py_str w (o_child ob)
                   @ ''</'' @ t @ ''>'' \<and>
                (i = 0 \<longrightarrow> py_str w (o_child ob) = [])
            | CompositeTag \<Rightarrow>
                list_all (val_ok w) (o_children ob) \<and>
                o_html ob = ''<'' @ t @ fmt_props (o_props ob) @ ''>''
                   @ concat (map (py_str w) (o_children ob)) @ ''</'' @ t @ ''>'' \<and>
                (i = 0 \<longrightarrow> o_children ob = []))))"

text \<open>Every copy of a class has one instance.\<close>

definition clone_unique :: "world \<Rightarrow> bool" where
  "clone_unique w =
     (\<forall>a < length (heap w). \<forall>b < length (heap w).
        is_clone (ocls (heap w ! a)) \<and> ocls (heap w ! a) = ocls (heap w ! b) \<longrightarrow> a = b)"

text \<open>
  What a cache entry stands for: under the key of a class call, an instance of that class
  with the attributes the call gives; under the key of a call of a node, an instance of a
  copy of the class of the node, with its attributes and the normalised content.
\<close>

definition class_entry_ok :: "world \<Rightarrow> cls \<Rightarrow> string list \<times> props \<Rightarrow> ref \<Rightarrow> bool" where
  "class_entry_ok w c k r =
     (is_module_tag c \<and> r < length (heap w) \<and> ocls (heap w ! r) = c \<and>
      o_props (heap w ! r) = foldl (\<lambda>d x. dict_set d x None) (snd k) (fst k))"

fun matches :: "world \<Rightarrow> key \<Rightarrow> val \<Rightarrow> bool" where
  "matches w KNone v = (v = VNone)"
| "matches w (KInt i) v = (v = VInt i)"
| "matches w (KStr s) v =
     (case v of
        VNode q \<Rightarrow> q < length (heap w) \<and> ocls (heap w ! q) = C_Text \<and> o_value (heap w ! q) = s
      | _ \<Rightarrow> False)"
| "matches w (KBytes b) v =
     (case v of
        VNode q \<Rightarrow> q < length (heap w) \<and> ocls (heap w ! q) = C_RawText \<and>
                   decode_utf8 b = Inr (o_value (heap w ! q))
      | _ \<Rightarrow> False)"
| "matches w (KNode c h) v =
     (case v of
        VNode q \<Rightarrow> q < length (heap w) \<and> ocls (heap w ! q) = c \<and> o_html (heap w ! q) = h
      | _ \<Rightarrow> False)"

definition has_self :: "world \<Rightarrow> cls \<Rightarrow> string \<Rightarrow> props \<Rightarrow> bool" where
  "has_self w c h ps =
     (\<exists>s < length (heap w). ocls (heap w ! s) = c \<and> o_html (heap w ! s) = h \<and>
        o_props (heap w ! s) = ps)"

definition call_entry_ok :: "world \<Rightarrow> base \<Rightarrow> key list \<Rightarrow> ref \<Rightarrow> bool" where
  "call_entry_ok w b ks r =
     (r < length (heap w) \<and>
      (case ks of
         KNode c h # args \<Rightarrow>
           has_base c b \<and> clone_of c (ocls (heap w ! r)) \<and>
           has_self w c h (o_props (heap w ! r)) \<and>
           (case b of
              LeafTag \<Rightarrow> False
            | SingleChildTag \<Rightarrow>
                (case args of [k] \<Rightarrow> matches w k (o_child (heap w ! r)) | _ \<Rightarrow> False)
            | CompositeTag \<Rightarrow> list_all2 (matches w) args (o_children (heap w ! r)))
       | _ \<Rightarrow> False))"

datatype entry =
  EValue cls string ref | EClass cls "string list \<times> props" ref | ECall base "key list" ref

definition entries :: "world \<Rightarrow> entry set" where
  "entries w =
     {EValue C_RawText s r | s r. (s, r) \<in> set (c_RawText w)} \<union>
     {EValue C_Text s r | s r. (s, r) \<in> set (c_Text w)} \<union>
     {EValue C_Comment s r | s r. (s, r) \<in> set (c_Comment w)} \<union>
     {EClass c k r | c k r. (k, r) \<in> set (c_class w c)} \<union>
     {ECall SingleChildTag k r | k r. (k, r) \<in> set (c_call1 w)} \<union>
     {ECall CompositeTag k r | k r. (k, r) \<in> set (c_calln w)}"

fun entry_ok :: "world \<Rightarrow> entry \<Rightarrow> bool" where
  "entry_ok w (EValue k s r) =
     (r < length (heap w) \<and> ocls (heap w ! r) = k \<and> o_value (heap w ! r) = s)"
| "entry_ok w (EClass c k r) = (class_entry_ok w c k r \<and> ''self'' \<notin> fst ` set (snd k))"
| "entry_ok w (ECall b ks r) = call_entry_ok w b ks r"

text \<open>
  The well-formed states: those the program can reach from \<open>init_world\<close> (\<open>wf_init\<close> and
  the lemmas \<open>_ok\<close> of the operations below).
\<close>

definition wf_world :: "world \<Rightarrow> bool" where
  "wf_world w =
     ((\<forall>ob \<in> set (heap w). obj_ok w ob) \<and> clone_unique w \<and>
      (\<forall>e \<in> entries w. entry_ok w e))"

text \<open>A later state: the store has grown, and no object of it has changed.\<close>

definition extends :: "world \<Rightarrow> world \<Rightarrow> bool" where
  "extends w w' =
     (hash_str w' = hash_str w \<and> n_types w \<le> n_types w' \<and>
      length (heap w) \<le> length (heap w') \<and>
      (\<forall>a < length (heap w). heap w' ! a = heap w ! a))"

text \<open>The text a content argument contributes to the rendered text.\<close>

definition content_text :: "world \<Rightarrow> arg \<Rightarrow> string" where
  "content_text w a =
     (case a of
        AStr s \<Rightarrow> escape s
      | ABytes b \<Rightarrow> (case decode_utf8 b of Inl e \<Rightarrow> [] | Inr s \<Rightarrow> s)
      | AVal v \<Rightarrow> py_str w v)"

text \<open>A \<open>bytes\<close> argument is decodable when \<open>decode("utf-8")\<close> returns a text of the alphabet.\<close>

definition decodable :: "arg \<Rightarrow> bool" where
  "decodable a =
     (case a of ABytes b \<Rightarrow> (case decode_utf8 b of Inl e \<Rightarrow> False | Inr s \<Rightarrow> True) | _ \<Rightarrow> True)"

subsection \<open>A fresh process\<close>

text \<open>
  The hash function of strings is fixed per process; for the concrete runs below it is the
  length of the string.
\<close>

definition hash0 :: "string \<Rightarrow> int" where
  "hash0 s = int (length s)"

definition world0 :: world where
  "world0 = init_world hash0"

text \<open>
  The elements of a list, each once, in the order in which they first occur; and what a
  call with the flags \<open>attrs\<close> and the keyword attributes \<open>kw\<close> is to make of them.
\<close>

fun firsts :: "'a list \<Rightarrow> 'a list" where
  "firsts [] = []"
| "firsts (x # xs) = x # filter (\<lambda>y. y \<noteq> x) (firsts xs)"

definition merged :: "string list \<Rightarrow> props \<Rightarrow> props" where
  "merged attrs kw =
     map (\<lambda>(k, v). (k, if k \<in> set attrs then None else v)) kw @
     map (\<lambda>k. (k, None)) (filter (\<lambda>k. k \<notin> fst ` set kw) (firsts attrs))"

subsection \<open>Content arguments\<close>

text \<open>
  What the normalisation makes of a content argument: a \<open>str\<close> is a \<open>_Text\<close> node of that
  value, a \<open>bytes\<close> is a \<open>_RawText\<close> node of the decoded value, \<open>None\<close> and an \<open>int\<close> are
  themselves, and a node is a node of the same class and the same rendered text (the node
  itself, or the equal node of the cached call).
\<close>

fun normalized :: "world \<Rightarrow> arg \<Rightarrow> val \<Rightarrow> bool" where
  "normalized w (AStr s) (VNode q) =
     (ocls (heap w ! q) = C_Text \<and> o_value (heap w ! q) = s \<and> o_html (heap w ! q) = escape s)"
| "normalized w (ABytes b) (VNode q) =
     (ocls (heap w ! q) = C_RawText \<and> decode_utf8 b = Inr (o_value (heap w ! q)) \<and>
      o_html (heap w ! q) = o_value (heap w ! q))"
| "normalized w (AVal (VNode p)) (VNode q) =
     (ocls (heap w ! q) = ocls (heap w ! p) \<and> o_html (heap w ! q) = o_html (heap w ! p))"
| "normalized w (AVal VNone) v = (v = VNone)"
| "normalized w (AVal (VInt i)) v = (v = VInt i)"
| "normalized w a v = False"

subsection \<open>The run \<open>Div()("a &", _RawText("<b>"))\<close>\<close>

text \<open>
  \<open>Div()\<close> in a fresh process gives the node \<open>div0\<close> and the state \<open>world1\<close>; then
  \<open>_RawText("<b>")\<close> gives the node \<open>raw_b\<close> and the state \<open>world2\<close>.
\<close>

definition div0 :: ref where
  "div0 = projr (fst (Div [] [] world0))"

definition world1 :: world where
  "world1 = snd (Div [] [] world0)"

definition raw_b :: ref where
  "raw_b = fst (RawText ''<b>'' world1)"

definition world2 :: world where
  "world2 = snd (RawText ''<b>'' world1)"

subsection \<open>The result of a call\<close>

text \<open>The text a tag node holds between its opening and its closing tag.\<close>

definition content :: "world \<Rightarrow> ref \<Rightarrow> string" where
  "content w r =
     (case ocls (heap w ! r) of
        C_Tag i n b t \<Rightarrow>
          (case b of
             LeafTag \<Rightarrow> []
           | SingleChildTag \<Rightarrow> py_str w (o_child (heap w ! r))
           | CompositeTag \<Rightarrow> concat (map (py_str w) (o_children (heap w ! r))))
      | _ \<Rightarrow> [])"

text \<open>
  A call of the node \<open>self\<close> in the state \<open>w\<close> with content of text \<open>txt\<close> returns a node
  other than \<open>self\<close>; every object of \<open>w\<close>, \<open>self\<close> among them, is as it was; and the
  result renders differently from \<open>self\<close> exactly when \<open>txt\<close> is not the content \<open>self\<close>
  already has.
\<close>

definition returns_node :: "world \<Rightarrow> ref \<Rightarrow> string \<Rightarrow> (error + ref) \<times> world \<Rightarrow> bool" where
  "returns_node w self txt res =
     (case res of
        (Inl e, w') \<Rightarrow> False
      | (Inr r, w') \<Rightarrow>
          r \<noteq> self \<and> r < length (heap w') \<and>
          (\<forall>q < length (heap w). heap w' ! q = heap w ! q) \<and>
          DOMCitizen_str w' self = DOMCitizen_str w self \<and>
          (DOMCitizen_str w' r \<noteq> DOMCitizen_str w' self) = (txt \<noteq> content w self))"

text \<open>A value that is neither a \<open>str\<close>, nor a \<open>bytes\<close>, nor a node.\<close>

fun other_value :: "val \<Rightarrow> bool" where
  "other_value (VNode r) = False"
| "other_value v = True"

definition title0 :: ref where
  "title0 = projr (fst (Title [] [] world0))"

definition world1t :: world where
  "world1t = snd (Title [] [] world0)"

subsection \<open>Runs for equality\<close>

text \<open>
  \<open>_Text("a")\<close> and then \<open>_RawText("a")\<close> in a fresh process; and \<open>Div("x")\<close> and then
  \<open>Div(x=None)\<close> in a fresh process.
\<close>

definition text_a :: ref where
  "text_a = fst (Text ''a'' world0)"

definition raw_a :: ref where
  "raw_a = fst (RawText ''a'' (snd (Text ''a'' world0)))"

definition world_a :: world where
  "world_a = snd (RawText ''a'' (snd (Text ''a'' world0)))"

definition div_x :: ref where
  "div_x = projr (fst (Div [''x''] [] world0))"

definition div_kx :: ref where
  "div_kx = projr (fst (Div [] [(''x'', None)] (snd (Div [''x''] [] world0))))"

definition world_x :: world where
  "world_x = snd (Div [] [(''x'', None)] (snd (Div [''x''] [] world0)))"


section \<open>Properties\<close>


lemma replace_chr_concat:
  "replace_chr c r s = concat (map (\<lambda>x. if x = c then r else [x]) s)"
  by (induction s) simp_all

lemma double_quote_backslash_quoted: "double_quote v = backslash_quoted v"
  by (simp add: double_quote_def backslash_quoted_def replace_chr_concat)

text \<open>
  C5.  A flag attribute (value \<open>None\<close>) is rendered as the bare name exactly when the name
  consists of letters and underscores only, and as the double-quoted name otherwise; an
  attribute with a string value is rendered as the name, an equals sign and the value in
  double quotes, each double quote inside it preceded by a backslash (no entity is used).
\<close>

theorem fmt_prop_cases:
  "fmt_prop name None =
     (if (\<forall>c \<in> set name. is_letter c) then name else backslash_quoted name) \<and>
   fmt_prop name (Some v) = name @ ''='' @ backslash_quoted v"
proof -
  have "sub_letters name = [] \<longleftrightarrow> (\<forall>c \<in> set name. is_letter c)"
    by (simp add: sub_letters_def filter_empty_conv)
  then show ?thesis
    by (simp add: fmt_prop_def double_quote_backslash_quoted)
qed

theorem fmt_prop_cases_witness:
  \<open>fmt_prop ''disabled'' None = ''disabled'' \<and>
   fmt_prop ''-//W3C//DTD'' None = ''"-//W3C//DTD"'' \<and>
   fmt_prop ''title'' (Some ''say "hi" & go'') = ''title="say '' @ [CHR 0x5C] @ ''"hi''
      @ [CHR 0x5C] @ ''" & go"''\<close>
  using fmt_prop_cases [of "''disabled''" "''x''"]
    fmt_prop_cases [of "''-//W3C//DTD''" "''x''"]
    fmt_prop_cases [of "''title''" "[CHR ''s'', CHR ''a'', CHR ''y'', CHR '' '', CHR 0x22,
       CHR ''h'', CHR ''i'', CHR 0x22, CHR '' '', CHR ''&'', CHR '' '', CHR ''g'', CHR ''o'']"]
  by (simp add: is_letter_def backslash_quoted_def)

lemma RawText_init_eq:
  "RawText_init v w =
     (length (heap w), w\<lparr>heap := heap w @ [mk_obj (hash_str w) C_RawText v v [] VNone []]\<rparr>)"
  by (simp add: RawText_init_def new_object_def DOMCitizen_setattr_def set_dom_properties_def
      object_setattr_def blank_def mk_obj_def)

lemma Text_init_eq:
  "Text_init v w =
     (length (heap w),
      w\<lparr>heap := heap w @ [mk_obj (hash_str w) C_Text (escape v) v [] VNone []]\<rparr>)"
  by (simp add: Text_init_def new_object_def DOMCitizen_setattr_def set_dom_properties_def
      object_setattr_def blank_def mk_obj_def)

lemma Comment_init_eq:
  "Comment_init v w =
     (length (heap w),
      w\<lparr>heap := heap w @ [mk_obj (hash_str w) C_Comment (''<!-- '' @ escape v @ '' -->'') v [] VNone []]\<rparr>)"
  by (simp add: Comment_init_def new_object_def DOMCitizen_setattr_def set_dom_properties_def
      object_setattr_def blank_def mk_obj_def)

lemma DocType_eq:
  "DocType attrs w =
     (length (heap w),
      w\<lparr>heap := heap w @ [mk_obj (hash_str w) C_DocType
         (''<!DOCTYPE'' @ fmt_props (foldl (\<lambda>d x. dict_set d x None) [] attrs) @ ''>'') []
         (foldl (\<lambda>d x. dict_set d x None) [] attrs) VNone []]\<rparr>)"
  by (simp add: DocType_def new_object_def DOMCitizen_setattr_def set_dom_properties_def
      object_setattr_def blank_def mk_obj_def Let_def)

lemma create_LeafTag_eq:
  "create (C_Tag i n LeafTag t) attrs kw w =
     (length (heap w),
      w\<lparr>heap := heap w @ [mk_obj (hash_str w) (C_Tag i n LeafTag t)
         (''<'' @ t @ fmt_props (foldl (\<lambda>d k. dict_set d k None) kw attrs) @ '' />'') []
         (foldl (\<lambda>d k. dict_set d k None) kw attrs) VNone []]\<rparr>)"
  by (simp add: LeafTag_init_def Tag_init_def new_object_def DOMCitizen_setattr_def set_dom_properties_def
      object_setattr_def blank_def mk_obj_def Let_def)

lemma create_CompositeTag_eq:
  "create (C_Tag i n CompositeTag t) attrs kw w =
     (length (heap w),
      w\<lparr>heap := heap w @ [mk_obj (hash_str w) (C_Tag i n CompositeTag t)
         (''<'' @ t @ fmt_props (foldl (\<lambda>d k. dict_set d k None) kw attrs) @ ''></'' @ t @ ''>'') []
         (foldl (\<lambda>d k. dict_set d k None) kw attrs) VNone []]\<rparr>)"
  by (simp add: CompositeTag_init_def Tag_init_def new_object_def DOMCitizen_setattr_def set_dom_properties_def
      object_setattr_def blank_def mk_obj_def Let_def)

lemma wf_init: "wf_world (init_world h)"
  by (simp add: wf_world_def init_world_def clone_unique_def entries_def)

lemma extends_refl: "extends w w"
  by (simp add: extends_def)

lemma extends_trans: "extends w w1 \<Longrightarrow> extends w1 w2 \<Longrightarrow> extends w w2"
  by (auto simp: extends_def)

lemma extends_val_ok: "extends w w' \<Longrightarrow> val_ok w v \<Longrightarrow> val_ok w' v"
  by (cases v) (auto simp: extends_def)

lemma extends_py_str: "extends w w' \<Longrightarrow> val_ok w v \<Longrightarrow> py_str w' v = py_str w v"
  by (cases v) (auto simp: extends_def DOMCitizen_str_def)

lemma extends_py_str_map:
  "extends w w' \<Longrightarrow> list_all (val_ok w) vs \<Longrightarrow> map (py_str w') vs = map (py_str w) vs"
  by (induction vs) (auto simp: extends_py_str)

lemma extends_obj_ok: "extends w w' \<Longrightarrow> obj_ok w ob \<Longrightarrow> obj_ok w' ob"
  unfolding obj_ok_def
  by (auto split: cls.splits base.splits simp: extends_py_str extends_val_ok extends_py_str_map
      list_all_iff extends_def)

lemma extends_matches: "extends w w' \<Longrightarrow> matches w k v \<Longrightarrow> matches w' k v"
  by (cases k; cases v) (auto simp: extends_def)

lemma extends_class_entry_ok:
  "extends w w' \<Longrightarrow> class_entry_ok w c k r \<Longrightarrow> class_entry_ok w' c k r"
  by (auto simp: extends_def class_entry_ok_def)

lemma extends_has_self: "extends w w' \<Longrightarrow> has_self w c h ps \<Longrightarrow> has_self w' c h ps"
  unfolding has_self_def extends_def
  by (metis order_less_le_trans)

lemma extends_call_entry_ok:
  "extends w w' \<Longrightarrow> call_entry_ok w b ks r \<Longrightarrow> call_entry_ok w' b ks r"
proof -
  assume e: "extends w w'" and c: "call_entry_ok w b ks r"
  have m: "\<And>k v. matches w k v \<Longrightarrow> matches w' k v"
    using e by (rule extends_matches)
  have l: "\<And>ks vs. list_all2 (matches w) ks vs \<Longrightarrow> list_all2 (matches w') ks vs"
    by (erule list_all2_mono) (rule m)
  have h: "\<And>a. a < length (heap w) \<Longrightarrow> heap w' ! a = heap w ! a \<and> a < length (heap w')"
    using e by (auto simp: extends_def)
  show ?thesis
    using c unfolding call_entry_ok_def
    by (auto split: list.splits key.splits base.splits simp: h m l extends_has_self [OF e])
qed

lemma extends_entry_ok: "extends w w' \<Longrightarrow> entry_ok w e \<Longrightarrow> entry_ok w' e"
  by (cases e) (auto simp: extends_class_entry_ok extends_call_entry_ok, auto simp: extends_def)

lemma wf_step:
  assumes w: "wf_world w" and e: "extends w w'"
    and new: "\<And>a. length (heap w) \<le> a \<Longrightarrow> a < length (heap w') \<Longrightarrow> obj_ok w' (heap w' ! a)"
    and uniq: "clone_unique w'"
    and ent: "\<And>x. x \<in> entries w' \<Longrightarrow> x \<in> entries w \<or> entry_ok w' x"
  shows "wf_world w'"
proof -
  have "obj_ok w' ob" if "ob \<in> set (heap w')" for ob
  proof -
    from that obtain a where a: "a < length (heap w')" "ob = heap w' ! a"
      by (auto simp: in_set_conv_nth)
    show ?thesis
    proof (cases "a < length (heap w)")
      case True
      then have "heap w' ! a = heap w ! a" using e by (simp add: extends_def)
      moreover have "obj_ok w (heap w ! a)" using w True by (simp add: wf_world_def)
      ultimately show ?thesis using a e by (simp add: extends_obj_ok)
    next
      case False
      then show ?thesis using new a by simp
    qed
  qed
  moreover have "entry_ok w' x" if "x \<in> entries w'" for x
    using ent [OF that] w e by (auto simp: wf_world_def extends_entry_ok)
  ultimately show ?thesis using uniq by (simp add: wf_world_def)
qed

lemma wf_class_id: "wf_world w \<Longrightarrow> a < length (heap w) \<Longrightarrow> ocls (heap w ! a) = C_Tag i n b t \<Longrightarrow> i \<le> n_types w"
  by (auto simp: wf_world_def obj_ok_def dest!: nth_mem split: cls.splits)

lemma clone_unique_append:
  assumes w: "wf_world w" and h: "heap w' = heap w @ xs"
    and x: "\<And>x. x \<in> set xs \<Longrightarrow> \<not> is_clone (ocls x)"
  shows "clone_unique w'"
  unfolding clone_unique_def
proof (intro allI impI)
  fix a b
  assume a: "a < length (heap w')" and b: "b < length (heap w')"
    and c: "is_clone (ocls (heap w' ! a)) \<and> ocls (heap w' ! a) = ocls (heap w' ! b)"
  have "a < length (heap w)"
    using a c h x [of "xs ! (a - length (heap w))"] by (cases "a < length (heap w)") (auto simp: nth_append)
  moreover have "b < length (heap w)"
    using b c h x [of "xs ! (b - length (heap w))"] by (cases "b < length (heap w)") (auto simp: nth_append)
  ultimately show "a = b"
    using w c h by (auto simp: wf_world_def clone_unique_def nth_append)
qed

lemma clone_unique_fresh:
  assumes w: "wf_world w" and h: "heap w' = heap w @ x # ys"
    and f: "ocls x = C_Tag j n b t" "n_types w < j"
    and y: "\<And>y. y \<in> set ys \<Longrightarrow> \<not> is_clone (ocls y)"
  shows "clone_unique w'"
  unfolding clone_unique_def
proof (intro allI impI)
  fix a b
  assume a: "a < length (heap w')" and b: "b < length (heap w')"
    and c: "is_clone (ocls (heap w' ! a)) \<and> ocls (heap w' ! a) = ocls (heap w' ! b)"
  have old: "ocls (heap w ! k) \<noteq> ocls x" if "k < length (heap w)" for k
    using wf_class_id [OF w that] f by (cases "ocls (heap w ! k)") auto
  have na: "a \<le> length (heap w)"
    using a c h y [of "ys ! (a - Suc (length (heap w)))"]
    by (cases "a \<le> length (heap w)") (auto simp: nth_append nth_Cons')
  have nb: "b \<le> length (heap w)"
    using b c h y [of "ys ! (b - Suc (length (heap w)))"]
    by (cases "b \<le> length (heap w)") (auto simp: nth_append nth_Cons')
  show "a = b"
  proof (cases "a < length (heap w)")
    case True
    then show ?thesis
      using w c h nb old [of a] by (cases "b < length (heap w)") (auto simp: wf_world_def clone_unique_def nth_append)
  next
    case False
    then show ?thesis
      using c h na nb old [of b] by (cases "b < length (heap w)") (auto simp: nth_append)
  qed
qed

lemma set_lru_hit: "x \<in> set (lru_hit c k r) \<Longrightarrow> x = (k, r) \<or> x \<in> set c"
  by (auto simp: lru_hit_def)

lemma set_lru_store: "x \<in> set (lru_store c k r) \<Longrightarrow> x = (k, r) \<or> x \<in> set c"
  by (auto simp: lru_store_def dest: in_set_butlastD split: if_splits)

lemma lru_cache_cases:
  assumes "lru_cache get upd k f w = (r, w')"
  obtains (hit) "map_of (get w) k = Some r" "w' = upd (\<lambda>c. lru_hit c k r) w"
  | (miss) w1 where "map_of (get w) k = None" "f w = (r, w1)" "w' = upd (\<lambda>c. lru_store c k r) w1"
  using assms by (auto simp: lru_cache_def split: option.splits prod.splits)

lemma lru_cache_exc_cases:
  assumes "lru_cache_exc get upd k f w = (res, w')"
  obtains (hit) r where "map_of (get w) k = Some r" "res = Inr r" "w' = upd (\<lambda>c. lru_hit c k r) w"
  | (miss) r w1 where "map_of (get w) k = None" "f w = (Inr r, w1)" "res = Inr r"
      "w' = upd (\<lambda>c. lru_store c k r) w1"
  | (exc) e where "map_of (get w) k = None" "f w = (Inl e, w')" "res = Inl e"
  using assms by (auto simp: lru_cache_exc_def split: option.splits prod.splits sum.splits)

lemma entries_heap [simp]: "entries (w\<lparr>heap := h\<rparr>) = entries w"
  by (simp add: entries_def)

lemma entries_n_types [simp]: "entries (w\<lparr>n_types := n\<rparr>) = entries w"
  by (simp add: entries_def)

lemma entries_c_RawText:
  "x \<in> entries (w\<lparr>c_RawText := c\<rparr>) \<Longrightarrow>
     x \<in> entries w \<or> (\<exists>s r. (s, r) \<in> set c \<and> x = EValue C_RawText s r)"
  by (auto simp: entries_def)

lemma entries_c_Text:
  "x \<in> entries (w\<lparr>c_Text := c\<rparr>) \<Longrightarrow>
     x \<in> entries w \<or> (\<exists>s r. (s, r) \<in> set c \<and> x = EValue C_Text s r)"
  by (auto simp: entries_def)

lemma entries_c_Comment:
  "x \<in> entries (w\<lparr>c_Comment := c\<rparr>) \<Longrightarrow>
     x \<in> entries w \<or> (\<exists>s r. (s, r) \<in> set c \<and> x = EValue C_Comment s r)"
  by (auto simp: entries_def)

lemma entries_c_class:
  "x \<in> entries (w\<lparr>c_class := (c_class w)(k := c)\<rparr>) \<Longrightarrow>
     x \<in> entries w \<or> (\<exists>s r. (s, r) \<in> set c \<and> x = EClass k s r)"
  by (auto simp: entries_def split: if_splits)

lemma entries_c_call1:
  "x \<in> entries (w\<lparr>c_call1 := c\<rparr>) \<Longrightarrow>
     x \<in> entries w \<or> (\<exists>s r. (s, r) \<in> set c \<and> x = ECall SingleChildTag s r)"
  by (auto simp: entries_def)

lemma entries_c_calln:
  "x \<in> entries (w\<lparr>c_calln := c\<rparr>) \<Longrightarrow>
     x \<in> entries w \<or> (\<exists>s r. (s, r) \<in> set c \<and> x = ECall CompositeTag s r)"
  by (auto simp: entries_def)

lemma in_entries_RawText: "(s, r) \<in> set (c_RawText w) \<Longrightarrow> EValue C_RawText s r \<in> entries w"
  by (simp add: entries_def)

lemma in_entries_Text: "(s, r) \<in> set (c_Text w) \<Longrightarrow> EValue C_Text s r \<in> entries w"
  by (simp add: entries_def)

lemma in_entries_Comment: "(s, r) \<in> set (c_Comment w) \<Longrightarrow> EValue C_Comment s r \<in> entries w"
  by (simp add: entries_def)

lemma in_entries_class: "(k, r) \<in> set (c_class w c) \<Longrightarrow> EClass c k r \<in> entries w"
  by (cases k) (simp add: entries_def)

lemma in_entries_call1: "(k, r) \<in> set (c_call1 w) \<Longrightarrow> ECall SingleChildTag k r \<in> entries w"
  by (simp add: entries_def)

lemma in_entries_calln: "(k, r) \<in> set (c_calln w) \<Longrightarrow> ECall CompositeTag k r \<in> entries w"
  by (simp add: entries_def)

lemma wf_entry: "wf_world w \<Longrightarrow> e \<in> entries w \<Longrightarrow> entry_ok w e"
  by (simp add: wf_world_def)

lemma clone_unique_heap: "heap w' = heap w \<Longrightarrow> clone_unique w \<Longrightarrow> clone_unique w'"
  by (simp add: clone_unique_def)

lemma Text_cases:
  assumes "Text v w = (r, w')"
  obtains (hit) "(v, r) \<in> set (c_Text w)" "w' = w\<lparr>c_Text := lru_hit (c_Text w) v r\<rparr>"
  | (miss) "r = length (heap w)"
      "w' = w\<lparr>heap := heap w @ [mk_obj (hash_str w) C_Text (escape v) v [] VNone []],
               c_Text := lru_store (c_Text w) v r\<rparr>"
  using assms unfolding Text_def
  by (cases rule: lru_cache_cases) (auto simp: Text_init_eq dest: map_of_SomeD)

lemma Text_ok:
  assumes w: "wf_world w" and t: "Text v w = (r, w')"
  shows "wf_world w' \<and> extends w w' \<and> entry_ok w' (EValue C_Text v r)"
  using t
proof (cases rule: Text_cases)
  case hit
  have e: "extends w w'" using hit by (simp add: extends_def)
  have k: "entry_ok w (EValue C_Text v r)"
    using w hit(1) by (simp only: wf_entry in_entries_Text)
  have "wf_world w'"
  proof (rule wf_step [OF w e])
    show "clone_unique w'"
      by (rule clone_unique_heap [of w' w]) (use w hit in \<open>simp_all add: wf_world_def\<close>)
    show "x \<in> entries w \<or> entry_ok w' x" if "x \<in> entries w'" for x
      using that hit by (auto dest!: entries_c_Text set_lru_hit simp: in_entries_Text)
  qed (use hit in simp)
  then show ?thesis using e extends_entry_ok [OF e k] by simp
next
  case miss
  have e: "extends w w'" using miss by (simp add: extends_def nth_append)
  have k: "entry_ok w' (EValue C_Text v r)"
    using miss by (simp add: mk_obj_def)
  have "wf_world w'"
  proof (rule wf_step [OF w e])
    show "clone_unique w'"
      by (rule clone_unique_append [OF w, of _ "[mk_obj (hash_str w) C_Text (escape v) v [] VNone []]"])
        (use miss in \<open>simp_all add: mk_obj_def\<close>)
    show "x \<in> entries w \<or> entry_ok w' x" if "x \<in> entries w'" for x
      using that k miss(2) by (auto dest!: entries_c_Text set_lru_store simp: in_entries_Text)
    show "obj_ok w' (heap w' ! a)" if "length (heap w) \<le> a" "a < length (heap w')" for a
      using that miss by (simp add: obj_ok_def mk_obj_def nth_append)
  qed
  then show ?thesis using e k by simp
qed

lemma RawText_cases:
  assumes "RawText v w = (r, w')"
  obtains (hit) "(v, r) \<in> set (c_RawText w)" "w' = w\<lparr>c_RawText := lru_hit (c_RawText w) v r\<rparr>"
  | (miss) "r = length (heap w)"
      "w' = w\<lparr>heap := heap w @ [mk_obj (hash_str w) C_RawText v v [] VNone []],
               c_RawText := lru_store (c_RawText w) v r\<rparr>"
  using assms unfolding RawText_def
  by (cases rule: lru_cache_cases) (auto simp: RawText_init_eq dest: map_of_SomeD)

lemma RawText_ok:
  assumes w: "wf_world w" and t: "RawText v w = (r, w')"
  shows "wf_world w' \<and> extends w w' \<and> entry_ok w' (EValue C_RawText v r)"
  using t
proof (cases rule: RawText_cases)
  case hit
  have e: "extends w w'" using hit by (simp add: extends_def)
  have k: "entry_ok w (EValue C_RawText v r)"
    using w hit(1) by (simp only: wf_entry in_entries_RawText)
  have "wf_world w'"
  proof (rule wf_step [OF w e])
    show "clone_unique w'"
      by (rule clone_unique_heap [of w' w]) (use w hit in \<open>simp_all add: wf_world_def\<close>)
    show "x \<in> entries w \<or> entry_ok w' x" if "x \<in> entries w'" for x
      using that hit by (auto dest!: entries_c_RawText set_lru_hit simp: in_entries_RawText)
  qed (use hit in simp)
  then show ?thesis using e extends_entry_ok [OF e k] by simp
next
  case miss
  have e: "extends w w'" using miss by (simp add: extends_def nth_append)
  have k: "entry_ok w' (EValue C_RawText v r)"
    using miss by (simp add: mk_obj_def)
  have "wf_world w'"
  proof (rule wf_step [OF w e])
    show "clone_unique w'"
      by (rule clone_unique_append [OF w, of _ "[mk_obj (hash_str w) C_RawText v v [] VNone []]"])
        (use miss in \<open>simp_all add: mk_obj_def\<close>)
    show "x \<in> entries w \<or> entry_ok w' x" if "x \<in> entries w'" for x
      using that k miss(2) by (auto dest!: entries_c_RawText set_lru_store simp: in_entries_RawText)
    show "obj_ok w' (heap w' ! a)" if "length (heap w) \<le> a" "a < length (heap w')" for a
      using that miss by (simp add: obj_ok_def mk_obj_def nth_append)
  qed
  then show ?thesis using e k by simp
qed

lemma Comment_cases:
  assumes "Comment v w = (r, w')"
  obtains (hit) "(v, r) \<in> set (c_Comment w)" "w' = w\<lparr>c_Comment := lru_hit (c_Comment w) v r\<rparr>"
  | (miss) "r = length (heap w)"
      "w' = w\<lparr>heap := heap w @ [mk_obj (hash_str w) C_Comment (''<!-- '' @ escape v @ '' -->'') v [] VNone []],
               c_Comment := lru_store (c_Comment w) v r\<rparr>"
  using assms unfolding Comment_def
  by (cases rule: lru_cache_cases) (auto simp: Comment_init_eq dest: map_of_SomeD)

lemma Comment_ok:
  assumes w: "wf_world w" and t: "Comment v w = (r, w')"
  shows "wf_world w' \<and> extends w w' \<and> entry_ok w' (EValue C_Comment v r)"
  using t
proof (cases rule: Comment_cases)
  case hit
  have e: "extends w w'" using hit by (simp add: extends_def)
  have k: "entry_ok w (EValue C_Comment v r)"
    using w hit(1) by (simp only: wf_entry in_entries_Comment)
  have "wf_world w'"
  proof (rule wf_step [OF w e])
    show "clone_unique w'"
      by (rule clone_unique_heap [of w' w]) (use w hit in \<open>simp_all add: wf_world_def\<close>)
    show "x \<in> entries w \<or> entry_ok w' x" if "x \<in> entries w'" for x
      using that hit by (auto dest!: entries_c_Comment set_lru_hit simp: in_entries_Comment)
  qed (use hit in simp)
  then show ?thesis using e extends_entry_ok [OF e k] by simp
next
  case miss
  have e: "extends w w'" using miss by (simp add: extends_def nth_append)
  have k: "entry_ok w' (EValue C_Comment v r)"
    using miss by (simp add: mk_obj_def)
  have "wf_world w'"
  proof (rule wf_step [OF w e])
    show "clone_unique w'"
      by (rule clone_unique_append [OF w, of _ "[mk_obj (hash_str w) C_Comment (''<!-- '' @ escape v @ '' -->'') v [] VNone []]"])
        (use miss in \<open>simp_all add: mk_obj_def\<close>)
    show "x \<in> entries w \<or> entry_ok w' x" if "x \<in> entries w'" for x
      using that k miss(2) by (auto dest!: entries_c_Comment set_lru_store simp: in_entries_Comment)
    show "obj_ok w' (heap w' ! a)" if "length (heap w) \<le> a" "a < length (heap w')" for a
      using that miss by (simp add: obj_ok_def mk_obj_def nth_append)
  qed
  then show ?thesis using e k by simp
qed

lemma wf_obj_ok: "wf_world w \<Longrightarrow> r < length (heap w) \<Longrightarrow> obj_ok w (heap w ! r)"
  by (simp add: wf_world_def)

lemma Text_html:
  "wf_world w \<Longrightarrow> r < length (heap w) \<Longrightarrow> ocls (heap w ! r) = C_Text \<Longrightarrow>
   o_html (heap w ! r) = escape (o_value (heap w ! r))"
  by (drule (1) wf_obj_ok) (simp add: obj_ok_def)

lemma RawText_html:
  "wf_world w \<Longrightarrow> r < length (heap w) \<Longrightarrow> ocls (heap w ! r) = C_RawText \<Longrightarrow>
   o_html (heap w ! r) = o_value (heap w ! r)"
  by (drule (1) wf_obj_ok) (simp add: obj_ok_def)

lemma py_str_append:
  "val_ok w v \<Longrightarrow> heap w' = heap w @ xs \<Longrightarrow> py_str w' v = py_str w v"
  by (cases v) (simp_all add: DOMCitizen_str_def nth_append)

lemma py_str_map_append:
  "list_all (val_ok w) vs \<Longrightarrow> heap w' = heap w @ xs \<Longrightarrow> map (py_str w') vs = map (py_str w) vs"
  by (induction vs) (simp_all add: py_str_append)

lemma escape_Nil [simp]: "escape [] = []"
  by (simp add: escape_def)

lemma Text_entry:
  assumes "wf_world w" "(s, q) \<in> set (c_Text w)"
  shows "q < length (heap w) \<and> ocls (heap w ! q) = C_Text \<and> o_value (heap w ! q) = s \<and>
         o_html (heap w ! q) = escape s"
proof -
  have "entry_ok w (EValue C_Text s q)"
    using assms by (simp only: wf_entry in_entries_Text)
  then show ?thesis using Text_html [OF assms(1), of q] by simp
qed

lemma RawText_entry:
  assumes "wf_world w" "(s, q) \<in> set (c_RawText w)"
  shows "q < length (heap w) \<and> ocls (heap w ! q) = C_RawText \<and> o_value (heap w ! q) = s \<and>
         o_html (heap w ! q) = s"
proof -
  have "entry_ok w (EValue C_RawText s q)"
    using assms by (simp only: wf_entry in_entries_RawText)
  then show ?thesis using RawText_html [OF assms(1), of q] by simp
qed

lemma create_SingleChildTag_cases:
  assumes i: "create (C_Tag i n SingleChildTag t) attrs kw w = (r, w')" and w: "wf_world w"
  obtains (hit) q where "([], q) \<in> set (c_Text w)" "q < length (heap w)" "r = length (heap w)"
      "w' = w\<lparr>heap := heap w @ [mk_obj (hash_str w) (C_Tag i n SingleChildTag t)
                (''<'' @ t @ fmt_props (foldl (\<lambda>d k. dict_set d k None) kw attrs) @ ''></'' @ t @ ''>'')
                [] (foldl (\<lambda>d k. dict_set d k None) kw attrs) (VNode q) []],
              c_Text := lru_hit (c_Text w) [] q\<rparr>"
  | (miss) "r = length (heap w)"
      "w' = w\<lparr>heap := heap w @ [mk_obj (hash_str w) (C_Tag i n SingleChildTag t)
                (''<'' @ t @ fmt_props (foldl (\<lambda>d k. dict_set d k None) kw attrs) @ ''></'' @ t @ ''>'')
                [] (foldl (\<lambda>d k. dict_set d k None) kw attrs) (VNode (Suc (length (heap w)))) [],
                mk_obj (hash_str w) C_Text [] [] [] VNone []],
              c_Text := lru_store (c_Text w) [] (Suc (length (heap w)))\<rparr>"
proof (cases "map_of (c_Text w) []")
  case None
  show ?thesis
  proof (rule that(2))
    show "r = length (heap w)" using i by (simp add: new_object_def split: prod.splits)
    show "w' = w\<lparr>heap := heap w @ [mk_obj (hash_str w) (C_Tag i n SingleChildTag t)
              (''<'' @ t @ fmt_props (foldl (\<lambda>d k. dict_set d k None) kw attrs) @ ''></'' @ t @ ''>'')
              [] (foldl (\<lambda>d k. dict_set d k None) kw attrs) (VNode (Suc (length (heap w)))) [],
              mk_obj (hash_str w) C_Text [] [] [] VNone []],
            c_Text := lru_store (c_Text w) [] (Suc (length (heap w)))\<rparr>"
      using i [symmetric] None
      by (simp add: new_object_def SingleChildTag_init_def Let_def Tag_init_def Text_def
          lru_cache_def Text_init_eq
          DOMCitizen_setattr_def set_dom_properties_def object_setattr_def blank_def mk_obj_def
          DOMCitizen_str_def nth_append)
  qed
next
  case (Some q)
  then have c: "([], q) \<in> set (c_Text w)" by (rule map_of_SomeD)
  note q = Text_entry [OF w c]
  show ?thesis
  proof (rule that(1) [OF c])
    show "q < length (heap w)" using q by simp
    show "r = length (heap w)" using i by (simp add: new_object_def split: prod.splits)
    show "w' = w\<lparr>heap := heap w @ [mk_obj (hash_str w) (C_Tag i n SingleChildTag t)
              (''<'' @ t @ fmt_props (foldl (\<lambda>d k. dict_set d k None) kw attrs) @ ''></'' @ t @ ''>'')
              [] (foldl (\<lambda>d k. dict_set d k None) kw attrs) (VNode q) []],
            c_Text := lru_hit (c_Text w) [] q\<rparr>"
      using i [symmetric] Some q
      by (simp add: new_object_def SingleChildTag_init_def Let_def Tag_init_def Text_def
          lru_cache_def
          DOMCitizen_setattr_def set_dom_properties_def object_setattr_def blank_def mk_obj_def
          DOMCitizen_str_def nth_append)
  qed
qed

lemma entries_sub_Text:
  assumes "x \<in> entries w'" "c_RawText w' = c_RawText w" "c_Comment w' = c_Comment w"
    "c_class w' = c_class w" "c_call1 w' = c_call1 w" "c_calln w' = c_calln w"
  shows "x \<in> entries w \<or> (\<exists>s r. (s, r) \<in> set (c_Text w') \<and> x = EValue C_Text s r)"
  using assms by (auto simp: entries_def)

lemma entries_sub_RawText:
  assumes "x \<in> entries w'" "c_Text w' = c_Text w" "c_Comment w' = c_Comment w"
    "c_class w' = c_class w" "c_call1 w' = c_call1 w" "c_calln w' = c_calln w"
  shows "x \<in> entries w \<or> (\<exists>s r. (s, r) \<in> set (c_RawText w') \<and> x = EValue C_RawText s r)"
  using assms by (auto simp: entries_def)

lemma entries_sub_class:
  assumes "x \<in> entries w'" "c_Text w' = c_Text w" "c_Comment w' = c_Comment w"
    "c_RawText w' = c_RawText w" "c_call1 w' = c_call1 w" "c_calln w' = c_calln w"
    "c_class w' = (c_class w)(c := l)"
  shows "x \<in> entries w \<or> (\<exists>k r. (k, r) \<in> set l \<and> x = EClass c k r)"
  using assms by (auto simp: entries_def split: if_splits)

lemma entries_sub_call1:
  assumes "x \<in> entries w'" "c_Text w' = c_Text w" "c_Comment w' = c_Comment w"
    "c_RawText w' = c_RawText w" "c_class w' = c_class w" "c_calln w' = c_calln w"
  shows "x \<in> entries w \<or> (\<exists>k r. (k, r) \<in> set (c_call1 w') \<and> x = ECall SingleChildTag k r)"
  using assms by (auto simp: entries_def)

lemma entries_sub_calln:
  assumes "x \<in> entries w'" "c_Text w' = c_Text w" "c_Comment w' = c_Comment w"
    "c_RawText w' = c_RawText w" "c_class w' = c_class w" "c_call1 w' = c_call1 w"
  shows "x \<in> entries w \<or> (\<exists>k r. (k, r) \<in> set (c_calln w') \<and> x = ECall CompositeTag k r)"
  using assms by (auto simp: entries_def)

lemma entries_same:
  assumes "c_Text w' = c_Text w" "c_Comment w' = c_Comment w"
    "c_RawText w' = c_RawText w" "c_class w' = c_class w" "c_call1 w' = c_call1 w"
    "c_calln w' = c_calln w"
  shows "entries w' = entries w"
  using assms by (simp add: entries_def)

lemma wf_append:
  assumes w: "wf_world w"
    and h: "heap w' = heap w @ xs" "hash_str w' = hash_str w" "n_types w \<le> n_types w'"
    and ok: "\<And>x. x \<in> set xs \<Longrightarrow> obj_ok w' x"
    and uniq: "clone_unique w'"
    and ent: "\<And>x. x \<in> entries w' \<Longrightarrow> x \<in> entries w \<or> entry_ok w' x"
  shows "wf_world w' \<and> extends w w'"
proof -
  have e: "extends w w'" using h by (simp add: extends_def nth_append)
  have "wf_world w'"
  proof (rule wf_step [OF w e _ uniq ent])
    show "obj_ok w' (heap w' ! a)" if "length (heap w) \<le> a" "a < length (heap w')" for a
      using that h(1) ok [of "xs ! (a - length (heap w))"] by (simp add: nth_append)
  qed
  then show ?thesis using e by simp
qed

lemma create_module_ok:
  assumes w: "wf_world w" and i: "create (C_Tag 0 n b t) attrs kw w = (r, w')"
  shows "wf_world w' \<and> extends w w' \<and> class_entry_ok w' (C_Tag 0 n b t) (attrs, kw) r"
proof (cases b)
  case LeafTag
  let ?x = "mk_obj (hash_str w) (C_Tag 0 n LeafTag t)
         (''<'' @ t @ fmt_props (foldl (\<lambda>d k. dict_set d k None) kw attrs) @ '' />'') []
         (foldl (\<lambda>d k. dict_set d k None) kw attrs) VNone []"
  have r: "r = length (heap w)" and w': "w' = w\<lparr>heap := heap w @ [?x]\<rparr>"
    using i unfolding LeafTag create_LeafTag_eq by simp_all
  have "wf_world w' \<and> extends w w'"
  proof (rule wf_append [OF w, of _ "[?x]"])
    show "clone_unique w'"
      by (rule clone_unique_append [OF w, of _ "[?x]"]) (simp_all add: w' mk_obj_def)
    show "x \<in> entries w \<or> entry_ok w' x" if "x \<in> entries w'" for x
      using that by (simp add: w')
  qed (simp_all add: w' obj_ok_def mk_obj_def)
  then show ?thesis by (simp add: class_entry_ok_def r w' LeafTag mk_obj_def)
next
  case CompositeTag
  let ?x = "mk_obj (hash_str w) (C_Tag 0 n CompositeTag t)
         (''<'' @ t @ fmt_props (foldl (\<lambda>d k. dict_set d k None) kw attrs) @ ''></'' @ t @ ''>'') []
         (foldl (\<lambda>d k. dict_set d k None) kw attrs) VNone []"
  have r: "r = length (heap w)" and w': "w' = w\<lparr>heap := heap w @ [?x]\<rparr>"
    using i unfolding CompositeTag create_CompositeTag_eq by simp_all
  have "wf_world w' \<and> extends w w'"
  proof (rule wf_append [OF w, of _ "[?x]"])
    show "clone_unique w'"
      by (rule clone_unique_append [OF w, of _ "[?x]"]) (simp_all add: w' mk_obj_def)
    show "x \<in> entries w \<or> entry_ok w' x" if "x \<in> entries w'" for x
      using that by (simp add: w')
  qed (simp_all add: w' obj_ok_def mk_obj_def)
  then show ?thesis by (simp add: class_entry_ok_def r w' CompositeTag mk_obj_def)
next
  case SingleChildTag
  let ?ps = "foldl (\<lambda>d k. dict_set d k None) kw attrs"
  from i [unfolded SingleChildTag] w show ?thesis
  proof (cases rule: create_SingleChildTag_cases)
    case (hit q)
    let ?x = "mk_obj (hash_str w) (C_Tag 0 n SingleChildTag t)
                (''<'' @ t @ fmt_props ?ps @ ''></'' @ t @ ''>'') [] ?ps (VNode q) []"
    note q = Text_entry [OF w hit(1)]
    have "wf_world w' \<and> extends w w'"
    proof (rule wf_append [OF w, of _ "[?x]"])
      show "clone_unique w'"
        by (rule clone_unique_append [OF w, of _ "[?x]"]) (simp_all add: hit mk_obj_def)
      show "x \<in> entries w \<or> entry_ok w' x" if "x \<in> entries w'" for x
        using entries_sub_Text [OF that, of w] hit(1) q
        by (auto simp: hit(4) nth_append dest!: set_lru_hit intro: in_entries_Text)
      show "obj_ok w' x" if "x \<in> set [?x]" for x
        using that q by (simp add: hit(4) obj_ok_def mk_obj_def DOMCitizen_str_def nth_append)
    qed (simp_all add: hit)
    then show ?thesis by (simp add: class_entry_ok_def hit SingleChildTag mk_obj_def)
  next
    case miss
    let ?x = "mk_obj (hash_str w) (C_Tag 0 n SingleChildTag t)
                (''<'' @ t @ fmt_props ?ps @ ''></'' @ t @ ''>'') [] ?ps
                (VNode (Suc (length (heap w)))) []"
    let ?y = "mk_obj (hash_str w) C_Text [] [] [] VNone []"
    have "wf_world w' \<and> extends w w'"
    proof (rule wf_append [OF w, of _ "[?x, ?y]"])
      show "clone_unique w'"
        by (rule clone_unique_append [OF w, of _ "[?x, ?y]"]) (auto simp: miss mk_obj_def)
      show "x \<in> entries w \<or> entry_ok w' x" if "x \<in> entries w'" for x
        using entries_sub_Text [OF that, of w]
        by (auto simp: miss(2) nth_append mk_obj_def dest!: set_lru_store intro: in_entries_Text)
      show "obj_ok w' x" if "x \<in> set [?x, ?y]" for x
        using that by (auto simp: miss(2) obj_ok_def mk_obj_def DOMCitizen_str_def nth_append)
    qed (simp_all add: miss)
    then show ?thesis by (simp add: class_entry_ok_def miss SingleChildTag mk_obj_def nth_append)
  qed
qed

lemma wf_cache_update:
  assumes w: "wf_world w" and h: "heap w' = heap w" "hash_str w' = hash_str w" "n_types w' = n_types w"
    and ent: "\<And>x. x \<in> entries w' \<Longrightarrow> x \<in> entries w \<or> entry_ok w x"
  shows "wf_world w' \<and> extends w w'"
proof -
  have e: "extends w w'" using h by (simp add: extends_def)
  have "wf_world w'"
  proof (rule wf_step [OF w e])
    show "clone_unique w'" by (rule clone_unique_heap [OF h(1)]) (use w in \<open>simp add: wf_world_def\<close>)
    show "x \<in> entries w \<or> entry_ok w' x" if "x \<in> entries w'" for x
      using ent [OF that] extends_entry_ok [OF e] by blast
  qed (use h in simp)
  then show ?thesis using e by simp
qed

lemma wf_class_store:
  assumes w: "wf_world w" and k: "class_entry_ok w c k r" "''self'' \<notin> fst ` set (snd k)"
    and l: "\<And>x. x \<in> set l \<Longrightarrow> x = (k, r) \<or> x \<in> set (c_class w c)"
  shows "wf_world (w\<lparr>c_class := (c_class w)(c := l)\<rparr>) \<and>
         extends w (w\<lparr>c_class := (c_class w)(c := l)\<rparr>)"
proof (rule wf_cache_update [OF w])
  fix x assume "x \<in> entries (w\<lparr>c_class := (c_class w)(c := l)\<rparr>)"
  from entries_sub_class [OF this, of w c l]
  have "x \<in> entries w \<or> (\<exists>ka ra. (ka, ra) \<in> set l \<and> x = EClass c ka ra)"
    by simp
  then show "x \<in> entries w \<or> entry_ok w x"
  proof (elim disjE exE conjE)
    fix ka ra assume a: "(ka, ra) \<in> set l" "x = EClass c ka ra"
    from l [OF a(1)] show ?thesis
    proof
      assume "(ka, ra) = (k, r)"
      then show ?thesis using a k by simp
    next
      assume "(ka, ra) \<in> set (c_class w c)"
      then show ?thesis using a by (simp add: in_entries_class)
    qed
  qed simp
qed simp_all

lemma wf_call1_store:
  assumes w: "wf_world w" and k: "call_entry_ok w SingleChildTag k r"
    and l: "\<And>x. x \<in> set l \<Longrightarrow> x = (k, r) \<or> x \<in> set (c_call1 w)"
  shows "wf_world (w\<lparr>c_call1 := l\<rparr>) \<and> extends w (w\<lparr>c_call1 := l\<rparr>)"
proof (rule wf_cache_update [OF w])
  fix x assume "x \<in> entries (w\<lparr>c_call1 := l\<rparr>)"
  from entries_sub_call1 [OF this, of w]
  have "x \<in> entries w \<or> (\<exists>ka ra. (ka, ra) \<in> set l \<and> x = ECall SingleChildTag ka ra)"
    by simp
  then show "x \<in> entries w \<or> entry_ok w x"
  proof (elim disjE exE conjE)
    fix ka ra assume a: "(ka, ra) \<in> set l" "x = ECall SingleChildTag ka ra"
    from l [OF a(1)] show ?thesis
    proof
      assume "(ka, ra) = (k, r)"
      then show ?thesis using a k by simp
    next
      assume "(ka, ra) \<in> set (c_call1 w)"
      then show ?thesis using a by (simp add: in_entries_call1)
    qed
  qed simp
qed simp_all

lemma wf_calln_store:
  assumes w: "wf_world w" and k: "call_entry_ok w CompositeTag k r"
    and l: "\<And>x. x \<in> set l \<Longrightarrow> x = (k, r) \<or> x \<in> set (c_calln w)"
  shows "wf_world (w\<lparr>c_calln := l\<rparr>) \<and> extends w (w\<lparr>c_calln := l\<rparr>)"
proof (rule wf_cache_update [OF w])
  fix x assume "x \<in> entries (w\<lparr>c_calln := l\<rparr>)"
  from entries_sub_calln [OF this, of w]
  have "x \<in> entries w \<or> (\<exists>ka ra. (ka, ra) \<in> set l \<and> x = ECall CompositeTag ka ra)"
    by simp
  then show "x \<in> entries w \<or> entry_ok w x"
  proof (elim disjE exE conjE)
    fix ka ra assume a: "(ka, ra) \<in> set l" "x = ECall CompositeTag ka ra"
    from l [OF a(1)] show ?thesis
    proof
      assume "(ka, ra) = (k, r)"
      then show ?thesis using a k by simp
    next
      assume "(ka, ra) \<in> set (c_calln w)"
      then show ?thesis using a by (simp add: in_entries_calln)
    qed
  qed simp
qed simp_all

lemma instantiate_cases:
  assumes "instantiate c attrs kw w = (res, w')"
  obtains (bound) r where "''self'' \<notin> fst ` set kw" "create c attrs kw w = (r, w')" "res = Inr r"
  | (unbound) "''self'' \<in> fst ` set kw" "res = Inl TypeError" "w' = w"
  using assms by (auto simp: instantiate_def split: if_splits prod.splits)

lemma cached_class_ok:
  assumes w: "wf_world w" and c: "cached_class (C_Tag 0 n b t) attrs kw w = (res, w')"
  shows "wf_world w' \<and> extends w w' \<and>
         (\<forall>r. res = Inr r \<longrightarrow> class_entry_ok w' (C_Tag 0 n b t) (attrs, kw) r) \<and>
         (res = Inl TypeError \<and> w' = w \<and> ''self'' \<in> fst ` set kw \<or>
          (\<exists>r. res = Inr r) \<and> ''self'' \<notin> fst ` set kw)"
  using c unfolding cached_class_def
proof (cases rule: lru_cache_exc_cases)
  case (hit r)
  let ?c = "C_Tag 0 n b t"
  have m: "((attrs, kw), r) \<in> set (c_class w ?c)" using hit(1) by (rule map_of_SomeD)
  then have "entry_ok w (EClass ?c (attrs, kw) r)"
    by (intro wf_entry [OF w] in_entries_class)
  then have k: "class_entry_ok w ?c (attrs, kw) r" "''self'' \<notin> fst ` set kw"
    by simp_all
  have w': "w' = w\<lparr>c_class := (c_class w)(?c := lru_hit (c_class w ?c) (attrs, kw) r)\<rparr>"
    using hit(3) by simp
  have "wf_world w' \<and> extends w w'"
    unfolding w' by (rule wf_class_store [OF w k(1)]) (use k(2) in \<open>auto dest: set_lru_hit\<close>)
  then show ?thesis using k hit(2) by (auto intro: extends_class_entry_ok)
next
  case (miss r w1)
  let ?c = "C_Tag 0 n b t"
  from miss(2) have s: "''self'' \<notin> fst ` set kw" and cr: "create ?c attrs kw w = (r, w1)"
    by (auto elim: instantiate_cases)
  note i = create_module_ok [OF w cr]
  have w': "w' = w1\<lparr>c_class := (c_class w1)(?c := lru_store (c_class w1 ?c) (attrs, kw) r)\<rparr>"
    using miss(4) by simp
  have "wf_world w' \<and> extends w1 w'"
    unfolding w' by (rule wf_class_store [where k = "(attrs, kw)" and r = r])
      (use i s in \<open>auto dest: set_lru_store\<close>)
  then show ?thesis using i s miss(3) by (auto intro: extends_class_entry_ok extends_trans)
next
  case (exc e)
  from exc(2) have "''self'' \<in> fst ` set kw" "e = TypeError" "w' = w"
    by (auto elim: instantiate_cases)
  then show ?thesis using w exc(3) by (simp add: extends_refl)
qed

lemma extends_arg_ok: "extends w w' \<Longrightarrow> arg_ok w a \<Longrightarrow> arg_ok w' a"
  by (cases a) (auto simp: extends_val_ok)

lemma extends_key_of: "extends w w' \<Longrightarrow> arg_ok w a \<Longrightarrow> key_of w' a = key_of w a"
  by (cases a) (auto simp: key_of_def extends_def split: val.splits)

lemma extends_content_text:
  "extends w w' \<Longrightarrow> arg_ok w a \<Longrightarrow> content_text w' a = content_text w a"
  by (cases a) (auto simp: content_text_def extends_py_str)

lemma normalize_ok:
  assumes w: "wf_world w" and a: "arg_ok w a" and n: "normalize a w = (res, w')"
  shows "wf_world w' \<and> extends w w' \<and>
         (\<forall>v. res = Inr v \<longrightarrow>
            val_ok w' v \<and> matches w' (key_of w a) v \<and> py_str w' v = content_text w a)"
proof (cases a)
  case (AStr s)
  obtain r where t: "Text s w = (r, w')" and res: "res = Inr (VNode r)"
    using n AStr by (auto simp: normalize_def split: prod.splits)
  note k = Text_ok [OF w t]
  then have "o_html (heap w' ! r) = escape s" using Text_html [of w' r] by simp
  then show ?thesis using k res AStr
    by (simp add: key_of_def content_text_def DOMCitizen_str_def)
next
  case (ABytes b)
  show ?thesis
  proof (cases "decode_utf8 b")
    case (Inl e)
    then show ?thesis using n ABytes w by (auto simp: normalize_def extends_refl)
  next
    case (Inr s)
    obtain r where t: "RawText s w = (r, w')" and res: "res = Inr (VNode r)"
      using n ABytes Inr by (auto simp: normalize_def split: prod.splits)
    note k = RawText_ok [OF w t]
    then have "o_html (heap w' ! r) = s" using RawText_html [of w' r] by simp
    then show ?thesis using k res ABytes Inr
      by (simp add: key_of_def content_text_def DOMCitizen_str_def)
  qed
next
  case (AVal v)
  then show ?thesis using n a w
    by (cases v) (auto simp: normalize_def extends_refl key_of_def content_text_def)
qed

lemma normalize_all_ok:
  assumes "wf_world w" "list_all (arg_ok w) as" "normalize_all as w = (res, w')"
  shows "wf_world w' \<and> extends w w' \<and>
         (\<forall>vs. res = Inr vs \<longrightarrow>
            list_all (val_ok w') vs \<and> list_all2 (matches w') (map (key_of w) as) vs \<and>
            map (py_str w') vs = map (content_text w) as)"
  using assms
proof (induction as arbitrary: w res w')
  case Nil
  then show ?case by (auto simp: extends_refl)
next
  case (Cons a as)
  obtain r1 w1 where n1: "normalize a w = (r1, w1)" by (cases "normalize a w")
  have a: "arg_ok w a" and as: "list_all (arg_ok w) as" using Cons.prems(2) by simp_all
  note k1 = normalize_ok [OF Cons.prems(1) a n1]
  show ?case
  proof (cases r1)
    case (Inl e)
    then show ?thesis using Cons.prems(3) n1 k1 by auto
  next
    case (Inr v)
    obtain r2 w2 where n2: "normalize_all as w1 = (r2, w2)" by (cases "normalize_all as w1")
    have e1: "extends w w1" using k1 by simp
    have as1: "list_all (arg_ok w1) as"
      using as e1 by (auto simp: list_all_iff extends_arg_ok)
    have k2: "wf_world w2 \<and> extends w1 w2 \<and>
         (\<forall>vs. r2 = Inr vs \<longrightarrow>
            list_all (val_ok w2) vs \<and> list_all2 (matches w2) (map (key_of w1) as) vs \<and>
            map (py_str w2) vs = map (content_text w1) as)"
      using Cons.IH [OF _ as1 n2] k1 by simp
    have keys: "map (key_of w1) as = map (key_of w) as"
      using as e1 by (auto simp: list_all_iff extends_key_of)
    have texts: "map (content_text w1) as = map (content_text w) as"
      using as e1 by (auto simp: list_all_iff extends_content_text)
    have e2: "extends w1 w2" using k2 by simp
    show ?thesis
    proof (cases r2)
      case (Inl e)
      then show ?thesis using Cons.prems(3) n1 n2 Inr k2 e1 by (auto intro: extends_trans)
    next
      case vs: (Inr vs)
      have res: "res = Inr (v # vs)" and w': "w' = w2"
        using Cons.prems(3) n1 n2 Inr vs by simp_all
      have v: "val_ok w2 v \<and> matches w2 (key_of w a) v \<and> py_str w2 v = content_text w a"
        using k1 Inr e2 by (auto simp: extends_val_ok extends_matches extends_py_str)
      show ?thesis using res w' v k2 vs keys texts e1 e2
        by (auto intro: extends_trans)
    qed
  qed
qed

lemma normalize_total: "decodable a \<Longrightarrow> \<exists>v w'. normalize a w = (Inr v, w')"
  by (cases a) (auto simp: normalize_def decodable_def split: prod.splits sum.splits)

lemma normalize_all_total:
  "list_all decodable as \<Longrightarrow> \<exists>vs w'. normalize_all as w = (Inr vs, w')"
proof (induction as arbitrary: w)
  case Nil
  then show ?case by simp
next
  case (Cons a as)
  obtain v w1 where 1: "normalize a w = (Inr v, w1)"
    using normalize_total [of a w] Cons.prems by auto
  obtain vs w2 where 2: "normalize_all as w1 = (Inr vs, w2)"
    using Cons.IH [of w1] Cons.prems by auto
  show ?case by (simp add: 1 2)
qed

lemma wf_new_type:
  assumes w: "wf_world w"
  shows "wf_world (w\<lparr>n_types := Suc (n_types w)\<rparr>) \<and> extends w (w\<lparr>n_types := Suc (n_types w)\<rparr>)"
proof (rule wf_append [OF w, of _ "[]"])
  show "clone_unique (w\<lparr>n_types := Suc (n_types w)\<rparr>)"
    by (rule clone_unique_heap [of _ w]) (use w in \<open>simp_all add: wf_world_def\<close>)
qed simp_all

lemma CompositeTag_call_body_eq:
  assumes n: "normalize_all as w = (Inr cs, w1)"
    and s: "self < length (heap w1)" "ocls (heap w1 ! self) = C_Tag i n CompositeTag t"
    and c: "list_all (val_ok w1) cs"
    and ns: "''self'' \<notin> fst ` set (o_props (heap w1 ! self))"
  shows "CompositeTag_call_body self as w =
     (Inr (length (heap w1)),
      w1\<lparr>heap := heap w1 @ [mk_obj (hash_str w1) (C_Tag (Suc (n_types w1)) n CompositeTag t)
              (''<'' @ t @ fmt_props (o_props (heap w1 ! self)) @ ''>''
                 @ concat (map (py_str w1) cs) @ ''</'' @ t @ ''>'')
              [] (o_props (heap w1 ! self)) VNone cs],
          n_types := Suc (n_types w1)\<rparr>)"
proof -
  define ps where "ps = o_props (heap w1 ! self)"
  define k where "k = C_Tag (Suc (n_types w1)) n CompositeTag t"
  define w2 where "w2 = w1\<lparr>n_types := Suc (n_types w1)\<rparr>"
  define b where "b = mk_obj (hash_str w1) k (''<'' @ t @ fmt_props ps @ ''></'' @ t @ ''>'') [] ps VNone []"
  define w4 where "w4 = w2\<lparr>heap := heap w1 @ [b\<lparr>o_children := cs\<rparr>]\<rparr>"
  have t: "type_copy (ocls (heap w1 ! self)) w1 = (k, w2)"
    by (simp add: s k_def w2_def)
  have p2: "o_props (heap w2 ! self) = ps" by (simp add: w2_def ps_def)
  have "create k [] ps w2 = (length (heap w1), w2\<lparr>heap := heap w1 @ [b]\<rparr>)"
    unfolding k_def create_CompositeTag_eq by (simp add: w2_def b_def k_def)
  then have i: "instantiate k [] ps w2 = (Inr (length (heap w1)), w2\<lparr>heap := heap w1 @ [b]\<rparr>)"
    using ns by (simp add: instantiate_def ps_def)
  have s4: "DOMCitizen_setattr (length (heap w1)) ''children'' (PTuple cs) (w2\<lparr>heap := heap w1 @ [b]\<rparr>) = w4"
    by (simp add: DOMCitizen_setattr_def object_setattr_def w4_def)
  have o4: "heap w4 ! length (heap w1) = b\<lparr>o_children := cs\<rparr>" by (simp add: w4_def)
  have p: "map (py_str w4) cs = map (py_str w1) cs"
    by (rule py_str_map_append [OF c]) (simp add: w4_def)
  have body: "CompositeTag_call_body self as w =
      (Inr (length (heap w1)),
       set_dom_properties (length (heap w1))
         (''<'' @ t @ fmt_props ps @ ''>'' @ concat (map (py_str w1) cs) @ ''</'' @ t @ ''>'') w4)"
    unfolding CompositeTag_call_body_def n
    by (simp only: sum.case prod.case t p2 i s4 Let_def o4 p)
       (simp add: b_def mk_obj_def k_def p)
  show ?thesis
    unfolding body
    by (simp add: set_dom_properties_def DOMCitizen_setattr_def object_setattr_def w4_def w2_def
        b_def mk_obj_def ps_def k_def)
qed

lemma CompositeTag_call_body_exc:
  assumes n: "normalize_all as w = (Inr cs, w1)"
    and s: "ocls (heap w1 ! self) = C_Tag i n CompositeTag t"
    and ns: "''self'' \<in> fst ` set (o_props (heap w1 ! self))"
  shows "CompositeTag_call_body self as w = (Inl TypeError, w1\<lparr>n_types := Suc (n_types w1)\<rparr>)"
  unfolding CompositeTag_call_body_def n using ns by (simp add: s instantiate_def)

lemma matches_text:
  assumes w: "wf_world w" and a: "arg_ok w a" and m: "matches w (key_of w a) v"
  shows "py_str w v = content_text w a"
proof (cases a)
  case (AStr s)
  then obtain q where "v = VNode q" "q < length (heap w)" "ocls (heap w ! q) = C_Text"
      "o_value (heap w ! q) = s"
    using m by (auto simp: key_of_def split: val.splits)
  then show ?thesis using Text_html [OF w, of q] AStr
    by (simp add: content_text_def DOMCitizen_str_def)
next
  case (ABytes b)
  then obtain q where "v = VNode q" "q < length (heap w)" "ocls (heap w ! q) = C_RawText"
      "decode_utf8 b = Inr (o_value (heap w ! q))"
    using m by (auto simp: key_of_def split: val.splits)
  then show ?thesis using RawText_html [OF w, of q] ABytes
    by (simp add: content_text_def DOMCitizen_str_def)
next
  case (AVal u)
  then show ?thesis using m
    by (cases u; cases v) (auto simp: key_of_def content_text_def DOMCitizen_str_def)
qed

lemma matches_texts:
  assumes w: "wf_world w" and a: "list_all (arg_ok w) as"
    and m: "list_all2 (matches w) (map (key_of w) as) vs"
  shows "map (py_str w) vs = map (content_text w) as"
  using a m
proof (induction as arbitrary: vs)
  case Nil
  then show ?case by simp
next
  case (Cons a as)
  then show ?case using matches_text [OF w, of a]
    by (auto simp: list_all2_Cons1)
qed

lemma same_class_html_props:
  assumes w: "wf_world w" and a: "a < length (heap w)" and b: "b < length (heap w)"
    and c: "ocls (heap w ! a) = C_Tag i n k t" "ocls (heap w ! b) = C_Tag i n k t"
    and h: "o_html (heap w ! a) = o_html (heap w ! b)"
  shows "fmt_props (o_props (heap w ! a)) = fmt_props (o_props (heap w ! b))"
proof (cases "i = 0")
  case False
  then have "a = b" using w a b c by (auto simp: wf_world_def clone_unique_def)
  then show ?thesis by simp
next
  case True
  have "obj_ok w (heap w ! a)" "obj_ok w (heap w ! b)"
    using w a b by (simp_all add: wf_obj_ok)
  then show ?thesis using c h True
    by (cases k) (auto simp: obj_ok_def)
qed

lemma CompositeTag_call_body_ok:
  assumes w: "wf_world w"
    and s: "self < length (heap w)" "ocls (heap w ! self) = C_Tag i n CompositeTag t"
    and a: "list_all (arg_ok w) as"
    and b: "CompositeTag_call_body self as w = (res, w')"
  shows "wf_world w' \<and> extends w w' \<and>
         (\<forall>r. res = Inr r \<longrightarrow> length (heap w) \<le> r \<and>
            call_entry_ok w' CompositeTag (key_of w (AVal (VNode self)) # map (key_of w) as) r \<and>
            o_html (heap w' ! r) = ''<'' @ t @ fmt_props (o_props (heap w ! self)) @ ''>''
               @ concat (map (content_text w) as) @ ''</'' @ t @ ''>'') \<and>
         (list_all decodable as \<and> ''self'' \<notin> fst ` set (o_props (heap w ! self)) \<longrightarrow>
            (\<exists>r. res = Inr r))"
proof -
  obtain r1 w1 where n: "normalize_all as w = (r1, w1)" by (cases "normalize_all as w")
  note k = normalize_all_ok [OF w a n]
  then have w1: "wf_world w1" and e1: "extends w w1" by simp_all
  show ?thesis
  proof (cases r1)
    case (Inl e)
    then have "res = Inl e" "w' = w1"
      using b n by (simp_all add: CompositeTag_call_body_def)
    moreover have "\<not> list_all decodable as"
      using normalize_all_total [of as w] n Inl by auto
    ultimately show ?thesis using w1 e1 by simp
  next
    case (Inr cs)
    have cs: "list_all (val_ok w1) cs" "list_all2 (matches w1) (map (key_of w) as) cs"
        "map (py_str w1) cs = map (content_text w) as"
      using k Inr by simp_all
    have s1: "self < length (heap w1)" "heap w1 ! self = heap w ! self"
      using e1 s(1) by (simp_all add: extends_def)
    let ?ps = "o_props (heap w ! self)"
    show ?thesis
    proof (cases "''self'' \<in> fst ` set ?ps")
    case True
    have "CompositeTag_call_body self as w = (Inl TypeError, w1\<lparr>n_types := Suc (n_types w1)\<rparr>)"
      using CompositeTag_call_body_exc [OF n [unfolded Inr], of self i n t] s(2) s1(2) True
      by simp
    then have "res = Inl TypeError" "w' = w1\<lparr>n_types := Suc (n_types w1)\<rparr>"
      using b by simp_all
    then show ?thesis using wf_new_type [OF w1] e1 True by (auto intro: extends_trans)
    next
    case ns: False
    let ?x = "mk_obj (hash_str w1) (C_Tag (Suc (n_types w1)) n CompositeTag t)
              (''<'' @ t @ fmt_props ?ps @ ''>'' @ concat (map (py_str w1) cs) @ ''</'' @ t @ ''>'')
              [] ?ps VNone cs"
    have "CompositeTag_call_body self as w =
       (Inr (length (heap w1)), w1\<lparr>heap := heap w1 @ [?x], n_types := Suc (n_types w1)\<rparr>)"
      using CompositeTag_call_body_eq [OF n [unfolded Inr] s1(1) _ cs(1), of i n t] s(2) s1(2) ns
      by simp
    then have res: "res = Inr (length (heap w1))"
      and w': "w' = w1\<lparr>heap := heap w1 @ [?x], n_types := Suc (n_types w1)\<rparr>"
      using b by simp_all
    have i: "i \<le> n_types w1" using wf_class_id [OF w1 s1(1), of i n CompositeTag t] s(2) s1(2) by simp
    have p: "map (py_str w') cs = map (py_str w1) cs"
      by (rule py_str_map_append [OF cs(1)]) (simp add: w')
    have we: "wf_world w' \<and> extends w1 w'"
    proof (rule wf_append [OF w1, of _ "[?x]"])
      show "clone_unique w'"
        by (rule clone_unique_fresh [OF w1, of _ ?x "[]" "Suc (n_types w1)" n CompositeTag t])
          (simp_all add: w' mk_obj_def)
      show "x \<in> entries w1 \<or> entry_ok w' x" if "x \<in> entries w'" for x
        using that by (simp add: w')
      show "obj_ok w' x" if "x \<in> set [?x]" for x
      proof -
        have "list_all (val_ok w') cs"
          using cs(1) by (auto simp: list_all_iff w' intro: extends_val_ok [of w1]
              simp: extends_def nth_append)
        moreover have "hash_str w' = hash_str w1" "n_types w' = Suc (n_types w1)"
          by (simp_all add: w')
        moreover have "concat (map (py_str w') cs) = concat (map (py_str w1) cs)"
          by (simp only: p)
        ultimately show ?thesis using that by (simp add: obj_ok_def mk_obj_def)
      qed
    qed (simp_all add: w')
    then have e': "extends w1 w'" "extends w w'" using e1 by (auto intro: extends_trans)
    have m: "list_all2 (matches w') (map (key_of w) as) cs"
      using cs(2) by (rule list_all2_mono) (rule extends_matches [OF e'(1)])
    have hs: "has_self w' (C_Tag i n CompositeTag t) (o_html (heap w ! self)) ?ps"
      unfolding has_self_def
      by (rule exI [of _ self]) (use s s1 in \<open>simp add: w' nth_append\<close>)
    have "call_entry_ok w' CompositeTag (key_of w (AVal (VNode self)) # map (key_of w) as)
            (length (heap w1))"
      using m hs i s(2) by (simp add: call_entry_ok_def key_of_def w' mk_obj_def)
    moreover have "length (heap w) \<le> length (heap w1)" using e1 by (simp add: extends_def)
    moreover have "o_html (heap w' ! length (heap w1)) = ''<'' @ t @ fmt_props ?ps @ ''>''
               @ concat (map (content_text w) as) @ ''</'' @ t @ ''>''"
      using cs(3) by (simp add: w' mk_obj_def)
    ultimately show ?thesis using we e' res by simp
    qed
  qed
qed

lemma calln_entry_html:
  assumes w: "wf_world w"
    and s: "self < length (heap w)" "ocls (heap w ! self) = C_Tag i n CompositeTag t"
    and a: "list_all (arg_ok w) as"
    and k: "call_entry_ok w CompositeTag (key_of w (AVal (VNode self)) # map (key_of w) as) r"
  shows "r < length (heap w) \<and> r \<noteq> self \<and>
         o_html (heap w ! r) = ''<'' @ t @ fmt_props (o_props (heap w ! self)) @ ''>''
            @ concat (map (content_text w) as) @ ''</'' @ t @ ''>''"
proof -
  have r: "r < length (heap w)"
    and c: "clone_of (C_Tag i n CompositeTag t) (ocls (heap w ! r))"
    and h: "has_self w (C_Tag i n CompositeTag t) (o_html (heap w ! self)) (o_props (heap w ! r))"
    and m: "list_all2 (matches w) (map (key_of w) as) (o_children (heap w ! r))"
    using k s(2) by (simp_all add: call_entry_ok_def key_of_def)
  from c obtain j where j: "ocls (heap w ! r) = C_Tag j n CompositeTag t" "i < j"
    by (cases "ocls (heap w ! r)") auto
  from h obtain s0 where s0: "s0 < length (heap w)" "ocls (heap w ! s0) = C_Tag i n CompositeTag t"
      "o_html (heap w ! s0) = o_html (heap w ! self)" "o_props (heap w ! s0) = o_props (heap w ! r)"
    by (auto simp: has_self_def)
  have p: "fmt_props (o_props (heap w ! r)) = fmt_props (o_props (heap w ! self))"
    using same_class_html_props [OF w s0(1) s(1) s0(2) s(2) s0(3)] s0(4) by simp
  have "obj_ok w (heap w ! r)" using w r by (rule wf_obj_ok)
  then have "o_html (heap w ! r) = ''<'' @ t @ fmt_props (o_props (heap w ! r)) @ ''>''
       @ concat (map (py_str w) (o_children (heap w ! r))) @ ''</'' @ t @ ''>''"
    using j by (simp add: obj_ok_def)
  moreover have "map (py_str w) (o_children (heap w ! r)) = map (content_text w) as"
    using w a m by (rule matches_texts)
  moreover have "r \<noteq> self" using j s(2) by auto
  ultimately show ?thesis using r p by simp
qed

lemma CompositeTag_call_ok:
  assumes w: "wf_world w"
    and s: "self < length (heap w)" "ocls (heap w ! self) = C_Tag i n CompositeTag t"
    and a: "list_all (arg_ok w) as"
    and c: "CompositeTag_call self as w = (res, w')"
  shows "wf_world w' \<and> extends w w' \<and>
         (\<forall>r. res = Inr r \<longrightarrow> r < length (heap w') \<and> r \<noteq> self \<and>
            call_entry_ok w' CompositeTag (key_of w (AVal (VNode self)) # map (key_of w) as) r \<and>
            o_html (heap w' ! r) = ''<'' @ t @ fmt_props (o_props (heap w ! self)) @ ''>''
               @ concat (map (content_text w) as) @ ''</'' @ t @ ''>'') \<and>
         (list_all decodable as \<and> ''self'' \<notin> fst ` set (o_props (heap w ! self)) \<longrightarrow>
            (\<exists>r. res = Inr r))"
  using c unfolding CompositeTag_call_def
proof (cases rule: lru_cache_exc_cases)
  case (hit r)
  let ?ks = "key_of w (AVal (VNode self)) # map (key_of w) as"
  have "(?ks, r) \<in> set (c_calln w)" using hit(1) by (rule map_of_SomeD)
  then have k: "call_entry_ok w CompositeTag ?ks r"
    using wf_entry [OF w in_entries_calln] by fastforce
  note h = calln_entry_html [OF w s a k]
  have w': "w' = w\<lparr>c_calln := lru_hit (c_calln w) ?ks r\<rparr>" using hit(3) by simp
  have we: "wf_world w' \<and> extends w w'"
    unfolding w' by (rule wf_calln_store [OF w k]) (auto dest: set_lru_hit)
  then have "call_entry_ok w' CompositeTag ?ks r" using k by (auto intro: extends_call_entry_ok)
  moreover have "heap w' = heap w" by (simp add: w')
  ultimately show ?thesis using we h hit(2) by simp
next
  case (miss r w1)
  let ?ks = "key_of w (AVal (VNode self)) # map (key_of w) as"
  note b = CompositeTag_call_body_ok [OF w s a miss(2)]
  then have w1: "wf_world w1" and e1: "extends w w1" and k: "call_entry_ok w1 CompositeTag ?ks r"
    and h: "o_html (heap w1 ! r) = ''<'' @ t @ fmt_props (o_props (heap w ! self)) @ ''>''
               @ concat (map (content_text w) as) @ ''</'' @ t @ ''>''"
    and f: "length (heap w) \<le> r"
    by simp_all
  have w': "w' = w1\<lparr>c_calln := lru_store (c_calln w1) ?ks r\<rparr>" using miss(4) by simp
  have we: "wf_world w' \<and> extends w1 w'"
    unfolding w' by (rule wf_calln_store [OF w1 k]) (auto dest: set_lru_store)
  then have "call_entry_ok w' CompositeTag ?ks r" using k by (auto intro: extends_call_entry_ok)
  moreover have "heap w' = heap w1" by (simp add: w')
  moreover have "r < length (heap w1)" using k by (simp add: call_entry_ok_def)
  moreover have "extends w w'" using we e1 by (auto intro: extends_trans)
  ultimately show ?thesis using we h f s(1) miss(3) by auto
next
  case (exc e)
  note b = CompositeTag_call_body_ok [OF w s a exc(2)]
  then show ?thesis using exc(3) by simp
qed

lemma SingleChildTag_call_body_eq:
  assumes n: "normalize a w = (Inr c, w1)"
    and s: "ocls (heap w1 ! self) = C_Tag i n SingleChildTag t"
    and c: "val_ok w1 c"
    and i: "create (C_Tag (Suc (n_types w1)) n SingleChildTag t) [] (o_props (heap w1 ! self))
              (w1\<lparr>n_types := Suc (n_types w1)\<rparr>) = (length (heap w1), w3)"
    and h: "heap w3 = heap w1 @ b # ys" "hash_str w3 = hash_str w1"
    and ns: "''self'' \<notin> fst ` set (o_props (heap w1 ! self))"
  shows "SingleChildTag_call_body self a w =
     (Inr (length (heap w1)),
      w3\<lparr>heap := heap w1 @
         b\<lparr>o_child := c,
           o_hash := hash_str w1 (''<'' @ tagname (ocls b) @ fmt_props (o_props b) @ ''>''
                       @ py_str w1 c @ ''</'' @ tagname (ocls b) @ ''>''),
           o_html := ''<'' @ tagname (ocls b) @ fmt_props (o_props b) @ ''>''
                       @ py_str w1 c @ ''</'' @ tagname (ocls b) @ ''>''\<rparr> # ys\<rparr>)"
proof -
  define w2 where "w2 = w1\<lparr>n_types := Suc (n_types w1)\<rparr>"
  define w4 where "w4 = w3\<lparr>heap := heap w1 @ b\<lparr>o_child := c\<rparr> # ys\<rparr>"
  have t: "type_copy (ocls (heap w1 ! self)) w1 = (C_Tag (Suc (n_types w1)) n SingleChildTag t, w2)"
    by (simp add: s w2_def)
  have p2: "o_props (heap w2 ! self) = o_props (heap w1 ! self)" by (simp add: w2_def)
  have i': "instantiate (C_Tag (Suc (n_types w1)) n SingleChildTag t) [] (o_props (heap w1 ! self))
              w2 = (Inr (length (heap w1)), w3)"
    using i ns by (simp add: instantiate_def w2_def)
  have s4: "DOMCitizen_setattr (length (heap w1)) ''child'' (PVal c) w3 = w4"
    by (simp add: DOMCitizen_setattr_def object_setattr_def w4_def h)
  have o4: "heap w4 ! length (heap w1) = b\<lparr>o_child := c\<rparr>" by (simp add: w4_def)
  have p: "py_str w4 c = py_str w1 c"
    by (rule py_str_append [OF c]) (simp add: w4_def)
  have body: "SingleChildTag_call_body self a w =
      (Inr (length (heap w1)),
       set_dom_properties (length (heap w1))
         (''<'' @ tagname (ocls b) @ fmt_props (o_props b) @ ''>'' @ py_str w1 c
            @ ''</'' @ tagname (ocls b) @ ''>'') w4)"
    unfolding SingleChildTag_call_body_def n
    by (simp only: sum.case prod.case t p2 i' s4 Let_def o4)
       (simp add: p)
  show ?thesis
    unfolding body
    by (simp add: set_dom_properties_def DOMCitizen_setattr_def object_setattr_def w4_def h)
qed

lemma SingleChildTag_call_body_exc:
  assumes n: "normalize a w = (Inr c, w1)"
    and s: "ocls (heap w1 ! self) = C_Tag i n SingleChildTag t"
    and ns: "''self'' \<in> fst ` set (o_props (heap w1 ! self))"
  shows "SingleChildTag_call_body self a w = (Inl TypeError, w1\<lparr>n_types := Suc (n_types w1)\<rparr>)"
  unfolding SingleChildTag_call_body_def n using ns by (simp add: s instantiate_def)

lemma SingleChildTag_call_body_ok:
  assumes w: "wf_world w"
    and s: "self < length (heap w)" "ocls (heap w ! self) = C_Tag i n SingleChildTag t"
    and a: "arg_ok w a"
    and b: "SingleChildTag_call_body self a w = (res, w')"
  shows "wf_world w' \<and> extends w w' \<and>
         (\<forall>r. res = Inr r \<longrightarrow> length (heap w) \<le> r \<and>
            call_entry_ok w' SingleChildTag [key_of w (AVal (VNode self)), key_of w a] r \<and>
            o_html (heap w' ! r) = ''<'' @ t @ fmt_props (o_props (heap w ! self)) @ ''>''
               @ content_text w a @ ''</'' @ t @ ''>'') \<and>
         (decodable a \<and> ''self'' \<notin> fst ` set (o_props (heap w ! self)) \<longrightarrow>
            (\<exists>r. res = Inr r))"
proof -
  obtain r1 w1 where n: "normalize a w = (r1, w1)" by (cases "normalize a w")
  note k = normalize_ok [OF w a n]
  then have w1: "wf_world w1" and e1: "extends w w1" by simp_all
  show ?thesis
  proof (cases r1)
    case (Inl e)
    then have "res = Inl e" "w' = w1"
      using b n by (simp_all add: SingleChildTag_call_body_def)
    moreover have "\<not> decodable a"
      using normalize_total [of a w] n Inl by auto
    ultimately show ?thesis using w1 e1 by simp
  next
    case (Inr c)
    have c: "val_ok w1 c" "matches w1 (key_of w a) c" "py_str w1 c = content_text w a"
      using k Inr by simp_all
    have s1: "self < length (heap w1)" "heap w1 ! self = heap w ! self"
      using e1 s(1) by (simp_all add: extends_def)
    have s1c: "ocls (heap w1 ! self) = C_Tag i n SingleChildTag t" using s(2) s1(2) by simp
    let ?ps = "o_props (heap w ! self)"
    let ?k = "C_Tag (Suc (n_types w1)) n SingleChildTag t"
    let ?w2 = "w1\<lparr>n_types := Suc (n_types w1)\<rparr>"
    let ?h = "''<'' @ t @ fmt_props ?ps @ ''>'' @ py_str w1 c @ ''</'' @ t @ ''>''"
    let ?x = "mk_obj (hash_str w1) ?k ?h [] ?ps c []"
    let ?y = "mk_obj (hash_str w1) C_Text [] [] [] VNone []"
    let ?ks = "[key_of w (AVal (VNode self)), key_of w a]"
    have w2: "wf_world ?w2" using wf_new_type [OF w1] by simp
    have i: "i \<le> n_types w1" using wf_class_id [OF w1 s1(1) s1c] .
    show ?thesis
    proof (cases "''self'' \<in> fst ` set ?ps")
    case True
    have "SingleChildTag_call_body self a w = (Inl TypeError, ?w2)"
      using SingleChildTag_call_body_exc [OF n [unfolded Inr] s1c] s1(2) True by simp
    then have "res = Inl TypeError" "w' = ?w2"
      using b by simp_all
    then show ?thesis using wf_new_type [OF w1] e1 True by (auto intro: extends_trans)
    next
    case ns: False
    then have ns1: "''self'' \<notin> fst ` set (o_props (heap w1 ! self))" using s1(2) by simp
    obtain tag w3 where inst: "create ?k [] (o_props (heap w1 ! self)) ?w2 = (tag, w3)"
      by (cases "create ?k [] (o_props (heap w1 ! self)) ?w2")
    have fin: "\<exists>ys. (ys = [] \<or> ys = [?y]) \<and> res = Inr (length (heap w1)) \<and>
        heap w' = heap w1 @ ?x # ys \<and> hash_str w' = hash_str w1 \<and>
        n_types w' = Suc (n_types w1) \<and> c_RawText w' = c_RawText w1 \<and>
        c_Comment w' = c_Comment w1 \<and> c_class w' = c_class w1 \<and> c_call1 w' = c_call1 w1 \<and>
        c_calln w' = c_calln w1 \<and>
        (\<forall>e \<in> set (c_Text w'). e \<in> set (c_Text w1) \<or>
           (ys = [?y] \<and> e = ([], Suc (length (heap w1)))))"
      using inst w2
    proof (cases rule: create_SingleChildTag_cases)
      case (hit q)
      have tag: "tag = length (heap w1)" using hit(3) by simp
      have "SingleChildTag_call_body self a w = (Inr (length (heap w1)),
          w3\<lparr>heap := heap w1 @ ?x # []\<rparr>)"
        using SingleChildTag_call_body_eq [OF n [unfolded Inr] s1c c(1) inst [unfolded tag] _ _ ns1,
            of "mk_obj (hash_str w1) ?k (''<'' @ t @ fmt_props ?ps @ ''></'' @ t @ ''>'') [] ?ps (VNode q) []" "[]"]
          s1(2)
        by (simp add: hit(4) mk_obj_def)
      then have "res = Inr (length (heap w1))" "w' = w3\<lparr>heap := heap w1 @ [?x]\<rparr>"
        using b by simp_all
      then show ?thesis using hit(1) s1(2)
        by (intro exI [of _ "[]"]) (auto simp: hit(4) dest: set_lru_hit)
    next
      case miss
      have tag: "tag = length (heap w1)" using miss(1) by simp
      have "SingleChildTag_call_body self a w = (Inr (length (heap w1)),
          w3\<lparr>heap := heap w1 @ ?x # [?y]\<rparr>)"
        using SingleChildTag_call_body_eq [OF n [unfolded Inr] s1c c(1) inst [unfolded tag] _ _ ns1,
            of "mk_obj (hash_str w1) ?k (''<'' @ t @ fmt_props ?ps @ ''></'' @ t @ ''>'') [] ?ps
                  (VNode (Suc (length (heap w1)))) []" "[?y]"]
          s1(2)
        by (simp add: miss(2) mk_obj_def)
      then have "res = Inr (length (heap w1))" "w' = w3\<lparr>heap := heap w1 @ [?x, ?y]\<rparr>"
        using b by simp_all
      then show ?thesis using s1(2)
        by (intro exI [of _ "[?y]"]) (auto simp: miss(2) dest: set_lru_store)
    qed
    then obtain ys where ys: "ys = [] \<or> ys = [?y]" and res: "res = Inr (length (heap w1))"
      and hp: "heap w' = heap w1 @ ?x # ys" and hs: "hash_str w' = hash_str w1"
      and nt: "n_types w' = Suc (n_types w1)"
      and cs: "c_RawText w' = c_RawText w1" "c_Comment w' = c_Comment w1"
        "c_class w' = c_class w1" "c_call1 w' = c_call1 w1" "c_calln w' = c_calln w1"
      and ct: "\<And>e. e \<in> set (c_Text w') \<Longrightarrow> e \<in> set (c_Text w1) \<or>
           (ys = [?y] \<and> e = ([], Suc (length (heap w1))))"
      by blast
    have p: "py_str w' c = py_str w1 c" using c(1) hp by (rule py_str_append)
    have vc: "val_ok w' c" using c(1) hp by (cases c) auto
    have we: "wf_world w' \<and> extends w1 w'"
    proof (rule wf_append [OF w1, of _ "?x # ys"])
      show "clone_unique w'"
        by (rule clone_unique_fresh [OF w1 hp, of "Suc (n_types w1)" n SingleChildTag t])
          (use ys in \<open>auto simp: mk_obj_def\<close>)
      show "x \<in> entries w1 \<or> entry_ok w' x" if "x \<in> entries w'" for x
      proof -
        from entries_sub_Text [OF that, of w1] cs
        have "x \<in> entries w1 \<or> (\<exists>s r. (s, r) \<in> set (c_Text w') \<and> x = EValue C_Text s r)"
          by simp
        then show ?thesis
        proof (elim disjE exE conjE)
          fix s r assume m: "(s, r) \<in> set (c_Text w')" "x = EValue C_Text s r"
          from ct [OF m(1)] show ?thesis
          proof
            assume "(s, r) \<in> set (c_Text w1)"
            then show ?thesis using m(2) by (simp add: in_entries_Text)
          next
            assume "ys = [?y] \<and> (s, r) = ([], Suc (length (heap w1)))"
            then show ?thesis using m(2) hp by (simp add: mk_obj_def nth_append)
          qed
        qed simp
      qed
      show "obj_ok w' x" if "x \<in> set (?x # ys)" for x
        using that ys p vc hs nt by (auto simp: obj_ok_def mk_obj_def)
    qed (simp_all add: hp hs nt)
    then have e': "extends w1 w'" "extends w w'" using e1 by (auto intro: extends_trans)
    have m: "matches w' (key_of w a) c" using c(2) by (rule extends_matches [OF e'(1)])
    have hself: "has_self w' (C_Tag i n SingleChildTag t) (o_html (heap w ! self)) ?ps"
      unfolding has_self_def
      by (rule exI [of _ self]) (use s s1 in \<open>simp add: hp nth_append\<close>)
    have "call_entry_ok w' SingleChildTag ?ks (length (heap w1))"
      using m hself i s(2) by (simp add: call_entry_ok_def key_of_def hp mk_obj_def)
    moreover have "length (heap w) \<le> length (heap w1)" using e1 by (simp add: extends_def)
    moreover have "o_html (heap w' ! length (heap w1)) = ''<'' @ t @ fmt_props ?ps @ ''>''
               @ content_text w a @ ''</'' @ t @ ''>''"
      using c(3) by (simp add: hp mk_obj_def)
    ultimately show ?thesis using we e' res by simp
    qed
  qed
qed

lemma call1_entry_html:
  assumes w: "wf_world w"
    and s: "self < length (heap w)" "ocls (heap w ! self) = C_Tag i n SingleChildTag t"
    and a: "arg_ok w a"
    and k: "call_entry_ok w SingleChildTag [key_of w (AVal (VNode self)), key_of w a] r"
  shows "r < length (heap w) \<and> r \<noteq> self \<and>
         o_html (heap w ! r) = ''<'' @ t @ fmt_props (o_props (heap w ! self)) @ ''>''
            @ content_text w a @ ''</'' @ t @ ''>''"
proof -
  have r: "r < length (heap w)"
    and c: "clone_of (C_Tag i n SingleChildTag t) (ocls (heap w ! r))"
    and h: "has_self w (C_Tag i n SingleChildTag t) (o_html (heap w ! self)) (o_props (heap w ! r))"
    and m: "matches w (key_of w a) (o_child (heap w ! r))"
    using k s(2) by (simp_all add: call_entry_ok_def key_of_def)
  from c obtain j where j: "ocls (heap w ! r) = C_Tag j n SingleChildTag t" "i < j"
    by (cases "ocls (heap w ! r)") auto
  from h obtain s0 where s0: "s0 < length (heap w)" "ocls (heap w ! s0) = C_Tag i n SingleChildTag t"
      "o_html (heap w ! s0) = o_html (heap w ! self)" "o_props (heap w ! s0) = o_props (heap w ! r)"
    by (auto simp: has_self_def)
  have p: "fmt_props (o_props (heap w ! r)) = fmt_props (o_props (heap w ! self))"
    using same_class_html_props [OF w s0(1) s(1) s0(2) s(2) s0(3)] s0(4) by simp
  have "obj_ok w (heap w ! r)" using w r by (rule wf_obj_ok)
  then have "o_html (heap w ! r) = ''<'' @ t @ fmt_props (o_props (heap w ! r)) @ ''>''
       @ py_str w (o_child (heap w ! r)) @ ''</'' @ t @ ''>''"
    using j by (simp add: obj_ok_def)
  moreover have "py_str w (o_child (heap w ! r)) = content_text w a"
    using w a m by (rule matches_text)
  moreover have "r \<noteq> self" using j s(2) by auto
  ultimately show ?thesis using r p by simp
qed

lemma SingleChildTag_call_ok:
  assumes w: "wf_world w"
    and s: "self < length (heap w)" "ocls (heap w ! self) = C_Tag i n SingleChildTag t"
    and a: "arg_ok w a"
    and c: "SingleChildTag_call self a w = (res, w')"
  shows "wf_world w' \<and> extends w w' \<and>
         (\<forall>r. res = Inr r \<longrightarrow> r < length (heap w') \<and> r \<noteq> self \<and>
            call_entry_ok w' SingleChildTag [key_of w (AVal (VNode self)), key_of w a] r \<and>
            o_html (heap w' ! r) = ''<'' @ t @ fmt_props (o_props (heap w ! self)) @ ''>''
               @ content_text w a @ ''</'' @ t @ ''>'') \<and>
         (decodable a \<and> ''self'' \<notin> fst ` set (o_props (heap w ! self)) \<longrightarrow>
            (\<exists>r. res = Inr r))"
  using c unfolding SingleChildTag_call_def
proof (cases rule: lru_cache_exc_cases)
  case (hit r)
  let ?ks = "[key_of w (AVal (VNode self)), key_of w a]"
  have "(?ks, r) \<in> set (c_call1 w)" using hit(1) by (rule map_of_SomeD)
  then have k: "call_entry_ok w SingleChildTag ?ks r"
    using wf_entry [OF w in_entries_call1] by fastforce
  note h = call1_entry_html [OF w s a k]
  have w': "w' = w\<lparr>c_call1 := lru_hit (c_call1 w) ?ks r\<rparr>" using hit(3) by simp
  have we: "wf_world w' \<and> extends w w'"
    unfolding w' by (rule wf_call1_store [OF w k]) (auto dest: set_lru_hit)
  then have "call_entry_ok w' SingleChildTag ?ks r" using k by (auto intro: extends_call_entry_ok)
  moreover have "heap w' = heap w" by (simp add: w')
  ultimately show ?thesis using we h hit(2) by simp
next
  case (miss r w1)
  let ?ks = "[key_of w (AVal (VNode self)), key_of w a]"
  note b = SingleChildTag_call_body_ok [OF w s a miss(2)]
  then have w1: "wf_world w1" and e1: "extends w w1" and k: "call_entry_ok w1 SingleChildTag ?ks r"
    and h: "o_html (heap w1 ! r) = ''<'' @ t @ fmt_props (o_props (heap w ! self)) @ ''>''
               @ content_text w a @ ''</'' @ t @ ''>''"
    and f: "length (heap w) \<le> r"
    by simp_all
  have w': "w' = w1\<lparr>c_call1 := lru_store (c_call1 w1) ?ks r\<rparr>" using miss(4) by simp
  have we: "wf_world w' \<and> extends w1 w'"
    unfolding w' by (rule wf_call1_store [OF w1 k]) (auto dest: set_lru_store)
  then have "call_entry_ok w' SingleChildTag ?ks r" using k by (auto intro: extends_call_entry_ok)
  moreover have "heap w' = heap w1" by (simp add: w')
  moreover have "r < length (heap w1)" using k by (simp add: call_entry_ok_def)
  moreover have "extends w w'" using we e1 by (auto intro: extends_trans)
  ultimately show ?thesis using we h f s(1) miss(3) by auto
next
  case (exc e)
  note b = SingleChildTag_call_body_ok [OF w s a exc(2)]
  then show ?thesis using exc(3) by simp
qed

lemma DocType_ok:
  assumes w: "wf_world w" and d: "DocType attrs w = (r, w')"
  shows "wf_world w' \<and> extends w w' \<and> r = length (heap w) \<and>
         heap w' ! r = mk_obj (hash_str w) C_DocType
           (''<!DOCTYPE'' @ fmt_props (foldl (\<lambda>d x. dict_set d x None) [] attrs) @ ''>'') []
           (foldl (\<lambda>d x. dict_set d x None) [] attrs) VNone []"
proof -
  let ?x = "mk_obj (hash_str w) C_DocType
           (''<!DOCTYPE'' @ fmt_props (foldl (\<lambda>d x. dict_set d x None) [] attrs) @ ''>'') []
           (foldl (\<lambda>d x. dict_set d x None) [] attrs) VNone []"
  have r: "r = length (heap w)" and w': "w' = w\<lparr>heap := heap w @ [?x]\<rparr>"
    using d by (simp_all add: DocType_eq)
  have "wf_world w' \<and> extends w w'"
  proof (rule wf_append [OF w, of _ "[?x]"])
    show "clone_unique w'"
      by (rule clone_unique_append [OF w, of _ "[?x]"]) (simp_all add: w' mk_obj_def)
    show "x \<in> entries w \<or> entry_ok w' x" if "x \<in> entries w'" for x
      using that by (simp add: w')
  qed (simp_all add: w' obj_ok_def mk_obj_def)
  then show ?thesis by (simp add: r w')
qed

lemma concat_map_concat:
  "concat (map f (concat (map g s))) = concat (map (\<lambda>x. concat (map f (g x))) s)"
  by (induction s) simp_all

lemma escape_entity: "escape s = concat (map entity s)"
proof -
  have "escape s = concat (map (\<lambda>x. replace_chr (CHR 0x27) ''&#x27;''
       (replace_chr (CHR 0x22) ''&quot;''
         (replace_chr CHR ''>'' ''&gt;''
           (replace_chr CHR ''<'' ''&lt;''
             (replace_chr CHR ''&'' ''&amp;'' [x]))))) s)"
    unfolding escape_def by (induction s) (simp_all add: replace_chr_concat)
  also have "\<dots> = concat (map entity s)"
    by (rule arg_cong [where f = concat], rule map_cong) (simp_all add: entity_def)
  finally show ?thesis .
qed

text \<open>
  C1. In every well-formed process state, the string form of \<open>_Text(s)\<close> is \<open>s\<close> with each of
  the five characters \<open>&\<close>, \<open><\<close>, \<open>>\<close>, the double quote and the single quote replaced by its
  entity (\<open>&amp;\<close>, \<open>&lt;\<close>, \<open>&gt;\<close>, \<open>&quot;\<close>, \<open>&#x27;\<close>) and every other character kept,
  and the string form of \<open>_RawText(s)\<close> is \<open>s\<close> itself. This holds on a cache hit as well as
  on a miss.
\<close>

theorem Text_RawText_str:
  assumes "wf_world w"
  shows "DOMCitizen_str (snd (Text s w)) (fst (Text s w)) = concat (map entity s) \<and>
         DOMCitizen_str (snd (RawText s w)) (fst (RawText s w)) = s"
proof -
  obtain r w' where t: "Text s w = (r, w')" by (cases "Text s w")
  obtain q w'' where u: "RawText s w = (q, w'')" by (cases "RawText s w")
  from Text_ok [OF assms t] have "o_html (heap w' ! r) = escape s"
    using Text_html [of w' r] by simp
  moreover from RawText_ok [OF assms u] have "o_html (heap w'' ! q) = s"
    using RawText_html [of w'' q] by simp
  ultimately show ?thesis by (simp add: t u DOMCitizen_str_def escape_entity)
qed

text \<open>The state of a fresh process is well-formed; there the two constructors give:\<close>

theorem Text_RawText_str_witness:
  "wf_world world0 \<and>
   DOMCitizen_str (snd (Text ''foo &nbsp;<p>'' world0)) (fst (Text ''foo &nbsp;<p>'' world0))
     = ''foo &amp;nbsp;&lt;p&gt;'' \<and>
   DOMCitizen_str (snd (RawText ''foo &nbsp;<p>'' world0)) (fst (RawText ''foo &nbsp;<p>'' world0))
     = ''foo &nbsp;<p>''"
proof -
  have w: "wf_world world0" unfolding world0_def by (rule wf_init)
  show ?thesis using w Text_RawText_str [OF w, of "''foo &nbsp;<p>''"]
    by (simp add: entity_def)
qed

text \<open>
  Every node class finds \<open>__setattr__\<close> in \<open>_DOMCitizen\<close>: no class below it overrides it.
\<close>

lemma lookup_setattr: "lookup c ''__setattr__'' = Some T_DOMCitizen"
proof (cases c)
  case (C_Tag i n b t)
  then show ?thesis by (cases b) (simp_all add: lookup_def)
qed (simp_all add: lookup_def)

text \<open>
  C6. For every node, of every class, every attribute name and every value, the assignment
  statement \<open>node.name = v\<close> runs \<open>_DOMCitizen.__setattr__\<close>, raises \<open>AttributeError\<close> and leaves
  the process state as it was.
\<close>

theorem setattr_stmt_raises:
  "lookup (ocls (heap w ! r)) ''__setattr__'' = Some T_DOMCitizen \<and>
   setattr_stmt r name v w = (Inl AttributeError, w)"
  by (simp add: setattr_stmt_def lookup_setattr)

text \<open>
  C9. \<open>repr(Br(id="x"))\<close> does not give the \<open>**{...}\<close> form of the attributes: \<open>tmf_props\<close> tests
  \<open>v\<close> before any assignment to it, so with at least one attribute it raises \<open>NameError\<close>.
\<close>

theorem repr_NameError:
  "(case Br [] [(''id'', Some ''x'')] world0 of
      (Inl e, w) \<Rightarrow> False
    | (Inr r, w) \<Rightarrow> LeafTag_repr w r = Inl NameError)"
  by code_simp

subsection \<open>The attributes of a tag\<close>

text \<open>
  The loop \<open>for k in attrs: props[k] = None\<close> of \<open>_Tag.__init__\<close> on the dictionary of the
  keyword arguments: a flag that is the name of a keyword argument replaces its value at
  the place the keyword has; the other flags are appended, each once, where they first
  occur.
\<close>

lemma keys_map_update:
  "fst ` set (map (\<lambda>e. if fst e = a then (a, v) else e) d) = fst ` set d"
  by (induction d) auto

lemma merged_Cons_old:
  assumes "a \<in> fst ` set d"
  shows "merged (a # as) d = merged as (dict_set d a None)"
proof -
  have 1: "dict_set d a None = map (\<lambda>e. if fst e = a then (a, None) else e) d"
    using assms by (simp add: dict_set_def)
  have 2: "fst ` set (map (\<lambda>e. if fst e = a then (a, None) else e) d) = fst ` set d"
    by (rule keys_map_update)
  have 3: "filter (\<lambda>k. k \<notin> fst ` set d) (a # filter (\<lambda>y. y \<noteq> a) (firsts as)) =
           filter (\<lambda>k. k \<notin> fst ` set d) (firsts as)"
    using assms by (auto intro!: filter_cong)
  have 4: "map (\<lambda>(k, v). (k, if k \<in> set as then None else v))
             (map (\<lambda>e. if fst e = a then (a, None) else e) d) =
           map (\<lambda>(k, v). (k, if k \<in> set (a # as) then None else v)) d"
    by (auto simp: case_prod_unfold)
  show ?thesis unfolding merged_def 1 2 firsts.simps 3 4 ..
qed

lemma merged_Cons_new:
  assumes "a \<notin> fst ` set d"
  shows "merged (a # as) d = merged as (dict_set d a None)"
proof -
  have 1: "dict_set d a None = d @ [(a, None)]"
    using assms by (simp add: dict_set_def)
  have 3: "filter (\<lambda>k. k \<notin> fst ` set (d @ [(a, None)])) (firsts as) =
           filter (\<lambda>k. k \<notin> fst ` set d) (filter (\<lambda>y. y \<noteq> a) (firsts as))"
    by (auto intro!: filter_cong)
  have n: "fst e \<noteq> a" if "e \<in> set d" for e
    using assms that by auto
  have 4: "map (\<lambda>(k, v). (k, if k \<in> set (a # as) then None else v)) d =
           map (\<lambda>(k, v). (k, if k \<in> set as then None else v)) d"
    by (rule map_cong) (auto simp: case_prod_unfold dest: n)
  have "merged (a # as) d =
      map (\<lambda>(k, v). (k, if k \<in> set as then None else v)) d @
      (a, None) # map (\<lambda>k. (k, None))
        (filter (\<lambda>k. k \<notin> fst ` set d) (filter (\<lambda>y. y \<noteq> a) (firsts as)))"
    unfolding merged_def firsts.simps 4 using assms by simp
  moreover have "merged as (dict_set d a None) =
      map (\<lambda>(k, v). (k, if k \<in> set as then None else v)) d @
      (a, None) # map (\<lambda>k. (k, None))
        (filter (\<lambda>k. k \<notin> fst ` set d) (filter (\<lambda>y. y \<noteq> a) (firsts as)))"
    unfolding merged_def 1 3 by simp
  ultimately show ?thesis by simp
qed

lemma foldl_dict_set_merged: "foldl (\<lambda>d k. dict_set d k None) kw attrs = merged attrs kw"
proof (induction attrs arbitrary: kw)
  case Nil
  show ?case by (simp add: merged_def case_prod_unfold)
next
  case (Cons a attrs)
  show ?case using Cons [of "dict_set kw a None"] merged_Cons_old [of a kw attrs]
      merged_Cons_new [of a kw attrs]
    by (cases "a \<in> fst ` set kw") simp_all
qed

lemma class_entry_html:
  assumes "wf_world w" "class_entry_ok w (C_Tag 0 n b t) k r"
  shows "o_html (heap w ! r) = ''<'' @ t @ fmt_props (o_props (heap w ! r)) @
     (case b of LeafTag \<Rightarrow> '' />'' | SingleChildTag \<Rightarrow> ''></'' @ t @ ''>''
      | CompositeTag \<Rightarrow> ''></'' @ t @ ''>'')"
proof -
  have "obj_ok w (heap w ! r)" using assms by (simp add: class_entry_ok_def wf_obj_ok)
  then show ?thesis using assms(2)
    by (cases b) (simp_all add: class_entry_ok_def obj_ok_def)
qed

text \<open>
  C10. In a well-formed process state, a tag class called with the flags \<open>attrs\<close> and the
  keyword attributes \<open>kw\<close> (a dictionary: its names are distinct) raises \<open>TypeError\<close> when a keyword is named \<open>self\<close>, and otherwise
  returns a node whose opening tag lists first the keyword attributes, in the order of the
  call, the value of each keyword that is also a flag replaced by \<open>None\<close> (it renders as a
  flag, where the keyword stands), and then the flags that are no keyword, each once, in
  the order in which they first occur.  So \<open>Input("x", y="z")\<close> is \<open><input y="z" x />\<close>,
  \<open>Input("b", a="1", b="2", c="3")\<close> is \<open><input a="1" b c="3" />\<close> and \<open>Input("x", "x")\<close> is
  \<open><input x />\<close>.  (The docstrings of \<open>_LeafTag\<close>, \<open>_SingleChildTag\<close> and \<open>_CompositeTag\<close>
  show the flag before the keyword, \<open><mytag x y="z" />\<close>; that is not what \<open>_Tag.__init__\<close>
  does.)
\<close>

theorem tag_attribute_order:
  assumes "wf_world w" "distinct (map fst kw)"
  shows "case cached_class (C_Tag 0 n b t) attrs kw w of
           (Inl e, w') \<Rightarrow> e = TypeError \<and> w' = w \<and> ''self'' \<in> fst ` set kw
         | (Inr r, w') \<Rightarrow>
             ''self'' \<notin> fst ` set kw \<and>
             o_props (heap w' ! r) = merged attrs kw \<and>
             DOMCitizen_str w' r =
               ''<'' @ t @ fmt_props (merged attrs kw) @
                 (case b of LeafTag \<Rightarrow> '' />'' | SingleChildTag \<Rightarrow> ''></'' @ t @ ''>''
                  | CompositeTag \<Rightarrow> ''></'' @ t @ ''>'')"
proof -
  obtain res w' where c: "cached_class (C_Tag 0 n b t) attrs kw w = (res, w')"
    by (cases "cached_class (C_Tag 0 n b t) attrs kw w")
  note k = cached_class_ok [OF assms(1) c]
  show ?thesis
  proof (cases res)
    case (Inl e)
    then show ?thesis using k by (simp add: c)
  next
    case (Inr r)
    then have e: "class_entry_ok w' (C_Tag 0 n b t) (attrs, kw) r" and w': "wf_world w'"
      and s: "''self'' \<notin> fst ` set kw"
      using k by simp_all
    have p: "o_props (heap w' ! r) = merged attrs kw"
      using e by (simp add: class_entry_ok_def foldl_dict_set_merged)
    show ?thesis using class_entry_html [OF w' e] p s
      by (simp add: c Inr DOMCitizen_str_def)
  qed
qed

text \<open>The three calls, each in a fresh process:\<close>

theorem tag_attribute_order_witness:
  \<open>wf_world world0 \<and>
   distinct (map fst [(''y'', Some ''z'')]) \<and>
   distinct (map fst [(''a'', Some ''1''), (''b'', Some ''2''), (''c'', Some ''3'')]) \<and>
   (case Input [''x''] [(''y'', Some ''z'')] world0 of
      (Inl e, w') \<Rightarrow> False
    | (Inr r, w') \<Rightarrow> DOMCitizen_str w' r = ''<input y="z" x />'') \<and>
   (case Input [''b''] [(''a'', Some ''1''), (''b'', Some ''2''), (''c'', Some ''3'')] world0 of
      (Inl e, w') \<Rightarrow> False
    | (Inr r, w') \<Rightarrow> DOMCitizen_str w' r = ''<input a="1" b c="3" />'') \<and>
   (case Input [''x'', ''x''] [] world0 of
      (Inl e, w') \<Rightarrow> False
    | (Inr r, w') \<Rightarrow> DOMCitizen_str w' r = ''<input x />'') \<and>
   (case Input [''x''] [(''self'', Some ''y'')] world0 of
      (Inl e, w') \<Rightarrow> e = TypeError
    | (Inr r, w') \<Rightarrow> False)\<close>
proof -
  have w: "wf_world world0" unfolding world0_def by (rule wf_init)
  have 1: "fmt_props (merged [''x''] [(''y'', Some ''z'')]) = [CHR '' '', CHR ''y'', CHR ''='',
      CHR 0x22, CHR ''z'', CHR 0x22, CHR '' '', CHR ''x'']"
    by code_simp
  have 2: "fmt_props (merged [''b''] [(''a'', Some ''1''), (''b'', Some ''2''), (''c'', Some ''3'')])
      = [CHR '' '', CHR ''a'', CHR ''='', CHR 0x22, CHR ''1'', CHR 0x22, CHR '' '', CHR ''b'',
         CHR '' '', CHR ''c'', CHR ''='', CHR 0x22, CHR ''3'', CHR 0x22]"
    by code_simp
  have 3: "fmt_props (merged [''x'', ''x''] []) = '' x''"
    by code_simp
  show ?thesis
    using w
      tag_attribute_order [OF w, where n = "''Input''" and b = LeafTag and t = "''input''"
        and attrs = "[''x'']" and kw = "[(''y'', Some ''z'')]"]
      tag_attribute_order [OF w, where n = "''Input''" and b = LeafTag and t = "''input''"
        and attrs = "[''b'']"
        and kw = "[(''a'', Some ''1''), (''b'', Some ''2''), (''c'', Some ''3'')]"]
      tag_attribute_order [OF w, where n = "''Input''" and b = LeafTag and t = "''input''"
        and attrs = "[''x'', ''x'']" and kw = "[]"]
      tag_attribute_order [OF w, where n = "''Input''" and b = LeafTag and t = "''input''"
        and attrs = "[''x'']" and kw = "[(''self'', Some ''y'')]"]
    unfolding 1 2 3 Input_def
    by (auto split: prod.splits sum.splits)
qed

text \<open>
  A flag that is also a keyword is not listed after the keyword attributes:
  \<open>Input("y", y="z")\<close> renders \<open><input y />\<close>, not \<open><input y="z" y />\<close>.
\<close>

theorem tag_attribute_order_counterexample:
  "(case Input [''y''] [(''y'', Some ''z'')] world0 of
      (Inl e, w') \<Rightarrow> False
    | (Inr r, w') \<Rightarrow> DOMCitizen_str w' r = ''<input y />'') \<and>
   ''<input y />'' \<noteq> ''<input'' @ fmt_props [(''y'', Some ''z''), (''y'', None)] @ '' />''"
  by code_simp

lemma matches_normalized:
  assumes "wf_world w'" "extends w w'" "arg_ok w a" "matches w' (key_of w a) v"
  shows "normalized w' a v"
proof (cases a)
  case (AStr s)
  then obtain q where v: "v = VNode q" and q: "q < length (heap w')" "ocls (heap w' ! q) = C_Text"
      "o_value (heap w' ! q) = s"
    using assms(4) by (auto simp: key_of_def split: val.splits)
  have "obj_ok w' (heap w' ! q)" using assms(1) q(1) by (simp add: wf_obj_ok)
  then show ?thesis using AStr v q by (simp add: obj_ok_def)
next
  case (ABytes b)
  then obtain q where v: "v = VNode q" and q: "q < length (heap w')"
      "ocls (heap w' ! q) = C_RawText" "decode_utf8 b = Inr (o_value (heap w' ! q))"
    using assms(4) by (auto simp: key_of_def split: val.splits)
  have "obj_ok w' (heap w' ! q)" using assms(1) q(1) by (simp add: wf_obj_ok)
  then show ?thesis using ABytes v q by (simp add: obj_ok_def)
next
  case (AVal u)
  show ?thesis
  proof (cases u)
    case (VNode p)
    then have "p < length (heap w)" using assms(3) AVal by simp
    then have "heap w' ! p = heap w ! p" using assms(2) by (simp add: extends_def)
    then show ?thesis using assms(4) AVal VNode by (auto simp: key_of_def split: val.splits)
  qed (use assms(4) AVal in \<open>auto simp: key_of_def\<close>)
qed

lemma matches_normalized_all:
  assumes "wf_world w'" "extends w w'" "list_all (arg_ok w) as"
    "list_all2 (matches w') (map (key_of w) as) vs"
  shows "list_all2 (normalized w') as vs"
proof -
  have "list_all2 (\<lambda>a v. arg_ok w a \<and> matches w' (key_of w a) v) as vs"
    using assms(3,4) by (auto simp: list_all2_conv_all_nth list_all_length)
  then show ?thesis
    by (rule list_all2_mono) (auto intro: matches_normalized [OF assms(1,2)])
qed

text \<open>
  C4. In a well-formed process state, a call of a composite tag node with content
  arguments returns a node, unless a \<open>bytes\<close> among the arguments cannot be decoded or an
  attribute of the node is named \<open>self\<close> (the call then raises).  The children of the node
  returned are the normalised arguments in the order of the call (a \<open>str\<close> as a \<open>_Text\<close>,
  which renders escaped, a \<open>bytes\<close> as a \<open>_RawText\<close>, which renders as it is, any other
  value as it is), and the node renders as the opening tag with the attributes of the
  called node, then the texts of the arguments in the order of the call, then the closing
  tag.
\<close>

theorem CompositeTag_call_renders:
  assumes "wf_world w" "self < length (heap w)"
    "ocls (heap w ! self) = C_Tag i n CompositeTag t"
    "list_all (arg_ok w) as"
  shows "case CompositeTag_call self as w of
           (Inl e, w') \<Rightarrow>
             \<not> (list_all decodable as \<and> ''self'' \<notin> fst ` set (o_props (heap w ! self)))
         | (Inr r, w') \<Rightarrow>
             list_all2 (normalized w') as (o_children (heap w' ! r)) \<and>
             DOMCitizen_str w' r =
               ''<'' @ t @ fmt_props (o_props (heap w ! self)) @ ''>''
                 @ concat (map (content_text w) as) @ ''</'' @ t @ ''>''"
proof -
  obtain res w' where c: "CompositeTag_call self as w = (res, w')"
    by (cases "CompositeTag_call self as w")
  note k = CompositeTag_call_ok [OF assms c]
  show ?thesis
  proof (cases res)
    case (Inl e)
    then show ?thesis using k by (auto simp: c)
  next
    case (Inr r)
    have "list_all2 (matches w') (map (key_of w) as) (o_children (heap w' ! r))"
      using k Inr by (simp add: call_entry_ok_def key_of_def)
    then have "list_all2 (normalized w') as (o_children (heap w' ! r))"
      using k assms(4) by (auto intro: matches_normalized_all)
    then show ?thesis using k Inr by (simp add: c DOMCitizen_str_def)
  qed
qed

lemma wf_world0: "wf_world world0"
  unfolding world0_def by (rule wf_init)

lemma wf_world1: "wf_world world1"
  using cached_class_ok [OF wf_world0, of "''Div''" CompositeTag "''div''" "[]" "[]"
      "fst (Div [] [] world0)" world1]
  by (simp add: world1_def Div_def)

lemma wf_world2: "wf_world world2"
  using RawText_ok [OF wf_world1, of "''<b>''" raw_b world2]
  by (simp add: raw_b_def world2_def)

lemma heap_world2:
  "heap world2 =
     [mk_obj hash0 (C_Tag 0 ''Div'' CompositeTag ''div'') ''<div></div>'' [] [] VNone [],
      mk_obj hash0 C_RawText ''<b>'' ''<b>'' [] VNone []]"
  by code_simp

lemma div0_raw_b: "div0 = 0" "raw_b = 1"
  by code_simp+

text \<open>The call of the claim, in \<open>world2\<close>:\<close>

theorem CompositeTag_call_renders_witness:
  "wf_world world2 \<and> div0 < length (heap world2) \<and>
   ocls (heap world2 ! div0) = C_Tag 0 ''Div'' CompositeTag ''div'' \<and>
   list_all (arg_ok world2) [AStr ''a &'', AVal (VNode raw_b)] \<and>
   list_all decodable [AStr ''a &'', AVal (VNode raw_b)] \<and>
   ''self'' \<notin> fst ` set (o_props (heap world2 ! div0)) \<and>
   (case CompositeTag_call div0 [AStr ''a &'', AVal (VNode raw_b)] world2 of
      (Inl e, w') \<Rightarrow> False
    | (Inr r, w') \<Rightarrow> DOMCitizen_str w' r = ''<div>a &amp;<b></div>'')"
proof -
  have 1: "div0 < length (heap world2)"
    and 2: "ocls (heap world2 ! div0) = C_Tag 0 ''Div'' CompositeTag ''div''"
    and 3: "list_all (arg_ok world2) [AStr ''a &'', AVal (VNode raw_b)]"
    and 4: "list_all decodable [AStr ''a &'', AVal (VNode raw_b)]"
    and 7: "''self'' \<notin> fst ` set (o_props (heap world2 ! div0))"
    by (simp_all add: heap_world2 div0_raw_b mk_obj_def decodable_def)
  have 5: "fmt_props (o_props (heap world2 ! div0)) = []"
    and 6: "concat (map (content_text world2) [AStr ''a &'', AVal (VNode raw_b)]) = ''a &amp;<b>''"
    by (simp_all add: heap_world2 div0_raw_b mk_obj_def content_text_def fmt_props_def
        escape_entity entity_def DOMCitizen_str_def)
  show ?thesis
    using CompositeTag_call_renders [OF wf_world2 1 2 3] wf_world2 1 2 3 4 7
    unfolding 5 6 by (auto split: prod.splits sum.splits)
qed

lemma tag_html_content:
  assumes "wf_world w" "r < length (heap w)" "ocls (heap w ! r) = C_Tag i n b t" "b \<noteq> LeafTag"
  shows "o_html (heap w ! r) =
           ''<'' @ t @ fmt_props (o_props (heap w ! r)) @ ''>'' @ content w r @ ''</'' @ t @ ''>''"
proof -
  have "obj_ok w (heap w ! r)" using assms(1,2) by (rule wf_obj_ok)
  then show ?thesis using assms(3,4) by (cases b) (simp_all add: obj_ok_def content_def)
qed

lemma module_tag_content:
  assumes "wf_world w" "r < length (heap w)" "ocls (heap w ! r) = C_Tag 0 n b t"
  shows "content w r = []"
proof -
  have "obj_ok w (heap w ! r)" using assms(1,2) by (rule wf_obj_ok)
  then show ?thesis using assms(3) by (cases b) (simp_all add: obj_ok_def content_def)
qed

lemma returns_nodeI:
  assumes w: "wf_world w" and s: "self < length (heap w)" "ocls (heap w ! self) = C_Tag i n b t"
    and b: "b \<noteq> LeafTag"
    and e: "extends w w'" and r: "r \<noteq> self" "r < length (heap w')"
    and h: "o_html (heap w' ! r) =
              ''<'' @ t @ fmt_props (o_props (heap w ! self)) @ ''>'' @ txt @ ''</'' @ t @ ''>''"
  shows "returns_node w self txt (Inr r, w')"
proof -
  have u: "\<forall>q < length (heap w). heap w' ! q = heap w ! q" using e by (simp add: extends_def)
  then have "heap w' ! self = heap w ! self" using s(1) by simp
  then show ?thesis using u r h tag_html_content [OF w s b]
    by (simp add: returns_node_def DOMCitizen_str_def)
qed

text \<open>
  C2. In a well-formed process state, calling a single-child or composite tag node with
  content (the \<open>bytes\<close> in it decodable, no attribute of the node named \<open>self\<close>) returns a node other than the called one and
  leaves every existing object, the called node among them, as it was, so that the called
  node renders as before.  The result renders differently from the called node exactly
  when the text of the content is not the content the called node already has; a node made
  by a tag constructor has empty content, so the result differs from it exactly when the
  text of the content is not empty.
\<close>

theorem call_leaves_base:
  assumes "wf_world w" "self < length (heap w)"
    "arg_ok w a" "decodable a" "list_all (arg_ok w) as" "list_all decodable as"
    "''self'' \<notin> fst ` set (o_props (heap w ! self))"
  shows "(ocls (heap w ! self) = C_Tag i n SingleChildTag t \<longrightarrow>
            returns_node w self (content_text w a) (SingleChildTag_call self a w)) \<and>
         (ocls (heap w ! self) = C_Tag i n CompositeTag t \<longrightarrow>
            returns_node w self (concat (map (content_text w) as)) (CompositeTag_call self as w)) \<and>
         (ocls (heap w ! self) = C_Tag 0 n b t \<longrightarrow> content w self = [])"
proof (intro conjI impI)
  assume c: "ocls (heap w ! self) = C_Tag i n SingleChildTag t"
  obtain res w' where r0: "SingleChildTag_call self a w = (res, w')"
    by (cases "SingleChildTag_call self a w")
  from SingleChildTag_call_ok [OF assms(1,2) c assms(3) r0] assms(4,7)
  obtain r where "res = Inr r" by blast
  then have r: "SingleChildTag_call self a w = (Inr r, w')" using r0 by simp
  note k = SingleChildTag_call_ok [OF assms(1,2) c assms(3) r]
  show "returns_node w self (content_text w a) (SingleChildTag_call self a w)"
    unfolding r using k by (intro returns_nodeI [OF assms(1,2) c]) simp_all
next
  assume c: "ocls (heap w ! self) = C_Tag i n CompositeTag t"
  obtain res w' where r0: "CompositeTag_call self as w = (res, w')"
    by (cases "CompositeTag_call self as w")
  from CompositeTag_call_ok [OF assms(1,2) c assms(5) r0] assms(6,7)
  obtain r where "res = Inr r" by blast
  then have r: "CompositeTag_call self as w = (Inr r, w')" using r0 by simp
  note k = CompositeTag_call_ok [OF assms(1,2) c assms(5) r]
  show "returns_node w self (concat (map (content_text w) as)) (CompositeTag_call self as w)"
    unfolding r using k by (intro returns_nodeI [OF assms(1,2) c]) simp_all
next
  assume "ocls (heap w ! self) = C_Tag 0 n b t"
  then show "content w self = []" by (rule module_tag_content [OF assms(1,2)])
qed

lemma wf_world1t: "wf_world world1t"
  using cached_class_ok [OF wf_world0, of "''Title''" SingleChildTag "''title''" "[]" "[]"
      "fst (Title [] [] world0)" world1t]
  by (simp add: world1t_def Title_def)

lemma heap_world1:
  "heap world1 =
     [mk_obj hash0 (C_Tag 0 ''Div'' CompositeTag ''div'') ''<div></div>'' [] [] VNone []]"
  by code_simp

lemma heap_world1t:
  "heap world1t =
     [mk_obj hash0 (C_Tag 0 ''Title'' SingleChildTag ''title'') ''<title></title>'' [] []
        (VNode 1) [],
      mk_obj hash0 C_Text [] [] [] VNone []]"
  by code_simp

lemma title0: "title0 = 0"
  by code_simp

text \<open>\<open>Div()("x")\<close> and \<open>Title()("x")\<close>, each in a fresh process:\<close>

theorem call_leaves_base_witness:
  "wf_world world1 \<and> div0 < length (heap world1) \<and>
   arg_ok world1 (AStr ''x'') \<and> decodable (AStr ''x'') \<and>
   list_all (arg_ok world1) [AStr ''x''] \<and> list_all decodable [AStr ''x''] \<and>
   ''self'' \<notin> fst ` set (o_props (heap world1 ! div0)) \<and>
   ocls (heap world1 ! div0) = C_Tag 0 ''Div'' CompositeTag ''div'' \<and>
   (case CompositeTag_call div0 [AStr ''x''] world1 of
      (Inl e, w') \<Rightarrow> False
    | (Inr r, w') \<Rightarrow> r \<noteq> div0 \<and> DOMCitizen_str w' div0 = ''<div></div>'' \<and>
        DOMCitizen_str w' r \<noteq> DOMCitizen_str w' div0) \<and>
   wf_world world1t \<and> title0 < length (heap world1t) \<and>
   ''self'' \<notin> fst ` set (o_props (heap world1t ! title0)) \<and>
   ocls (heap world1t ! title0) = C_Tag 0 ''Title'' SingleChildTag ''title'' \<and>
   (case SingleChildTag_call title0 (AStr ''x'') world1t of
      (Inl e, w') \<Rightarrow> False
    | (Inr r, w') \<Rightarrow> r \<noteq> title0 \<and> DOMCitizen_str w' title0 = ''<title></title>'' \<and>
        DOMCitizen_str w' r \<noteq> DOMCitizen_str w' title0)"
proof -
  have 1: "div0 < length (heap world1)" "arg_ok world1 (AStr ''x'')" "decodable (AStr ''x'')"
    "list_all (arg_ok world1) [AStr ''x'']" "list_all decodable [AStr ''x'']"
    "ocls (heap world1 ! div0) = C_Tag 0 ''Div'' CompositeTag ''div''"
    "DOMCitizen_str world1 div0 = ''<div></div>''"
    "concat (map (content_text world1) [AStr ''x'']) = ''x''"
    "''self'' \<notin> fst ` set (o_props (heap world1 ! div0))"
    by (simp_all add: heap_world1 div0_raw_b mk_obj_def decodable_def DOMCitizen_str_def
        content_text_def escape_entity entity_def)
  have 2: "title0 < length (heap world1t)" "arg_ok world1t (AStr ''x'')"
    "list_all (arg_ok world1t) [AStr ''x'']"
    "ocls (heap world1t ! title0) = C_Tag 0 ''Title'' SingleChildTag ''title''"
    "DOMCitizen_str world1t title0 = ''<title></title>''"
    "content_text world1t (AStr ''x'') = ''x''"
    "''self'' \<notin> fst ` set (o_props (heap world1t ! title0))"
    by (simp_all add: heap_world1t title0 mk_obj_def decodable_def DOMCitizen_str_def
        content_text_def escape_entity entity_def)
  note a = call_leaves_base [OF wf_world1 1(1,2,3,4,5,9), of 0 "''Div''" "''div''" CompositeTag]
  note b = call_leaves_base [OF wf_world1t 2(1,2) 1(3) 2(3) 1(5) 2(7), of 0 "''Title''" "''title''"
      SingleChildTag]
  have "returns_node world1 div0 ''x'' (CompositeTag_call div0 [AStr ''x''] world1)"
    "content world1 div0 = []"
    using a 1 by simp_all
  moreover have "returns_node world1t title0 ''x'' (SingleChildTag_call title0 (AStr ''x'') world1t)"
    "content world1t title0 = []"
    using b 2 by simp_all
  ultimately show ?thesis using wf_world1 wf_world1t 1 2
    by (auto simp: returns_node_def split: prod.splits sum.splits)
qed

text \<open>
  The text of the content can be empty: \<open>Div()("")\<close> returns a node that renders
  \<open><div></div>\<close>, as \<open>Div()\<close> does.
\<close>

theorem call_leaves_base_counterexample:
  "(case CompositeTag_call div0 [AStr ''''] world1 of
      (Inl e, w') \<Rightarrow> False
    | (Inr r, w') \<Rightarrow> r \<noteq> div0 \<and> DOMCitizen_str w' div0 = ''<div></div>'' \<and>
        DOMCitizen_str w' r = ''<div></div>'')"
  by code_simp

lemma matches_other_value:
  "other_value v \<Longrightarrow> matches w' (key_of w (AVal v)) u \<Longrightarrow> u = v"
  by (cases v) (simp_all add: key_of_def)

lemma matches_other_values:
  "list_all other_value vs \<Longrightarrow> list_all2 (matches w') (map (key_of w) (map AVal vs)) us \<Longrightarrow>
   us = vs"
proof (induction vs arbitrary: us)
  case Nil
  then show ?case by simp
next
  case (Cons v vs)
  then show ?case by (cases us) (auto dest: matches_other_value)
qed

lemma other_value_val_ok: "other_value v \<Longrightarrow> val_ok w v"
  by (cases v) simp_all

lemma other_value_arg_ok: "other_value v \<Longrightarrow> arg_ok w (AVal v)"
  by (cases v) simp_all

text \<open>
  C8. In a well-formed process state, a content argument that is neither a \<open>str\<close>, nor a
  \<open>bytes\<close>, nor a node (\<open>None\<close>, an \<open>int\<close>) is accepted by the call of a single-child and of a
  composite tag node (no attribute of the node named \<open>self\<close>): the call returns a node, the value is kept as the child as it is,
  and its \<open>str()\<close> stands unescaped in the rendered text.
\<close>

theorem other_content_accepted:
  assumes "wf_world w" "self < length (heap w)" "other_value v" "list_all other_value vs"
    "''self'' \<notin> fst ` set (o_props (heap w ! self))"
  shows "(ocls (heap w ! self) = C_Tag i n SingleChildTag t \<longrightarrow>
            (case SingleChildTag_call self (AVal v) w of
               (Inl e, w') \<Rightarrow> False
             | (Inr r, w') \<Rightarrow>
                 o_child (heap w' ! r) = v \<and>
                 DOMCitizen_str w' r =
                   ''<'' @ t @ fmt_props (o_props (heap w ! self)) @ ''>'' @ py_str w v
                     @ ''</'' @ t @ ''>'')) \<and>
         (ocls (heap w ! self) = C_Tag i n CompositeTag t \<longrightarrow>
            (case CompositeTag_call self (map AVal vs) w of
               (Inl e, w') \<Rightarrow> False
             | (Inr r, w') \<Rightarrow>
                 o_children (heap w' ! r) = vs \<and>
                 DOMCitizen_str w' r =
                   ''<'' @ t @ fmt_props (o_props (heap w ! self)) @ ''>''
                     @ concat (map (py_str w) vs) @ ''</'' @ t @ ''>''))"
proof (intro conjI impI)
  assume c: "ocls (heap w ! self) = C_Tag i n SingleChildTag t"
  have a: "arg_ok w (AVal v)" using assms(3) by (rule other_value_arg_ok)
  have d: "decodable (AVal v)" by (simp add: decodable_def)
  obtain res w' where r0: "SingleChildTag_call self (AVal v) w = (res, w')"
    by (cases "SingleChildTag_call self (AVal v) w")
  from SingleChildTag_call_ok [OF assms(1,2) c a r0] d assms(5)
  obtain r where "res = Inr r" by blast
  then have r: "SingleChildTag_call self (AVal v) w = (Inr r, w')" using r0 by simp
  note k = SingleChildTag_call_ok [OF assms(1,2) c a r]
  then have "matches w' (key_of w (AVal v)) (o_child (heap w' ! r))"
    by (simp add: call_entry_ok_def key_of_def)
  then have "o_child (heap w' ! r) = v" using assms(3) by (rule matches_other_value [rotated])
  then show "case SingleChildTag_call self (AVal v) w of
               (Inl e, w') \<Rightarrow> False
             | (Inr r, w') \<Rightarrow>
                 o_child (heap w' ! r) = v \<and>
                 DOMCitizen_str w' r =
                   ''<'' @ t @ fmt_props (o_props (heap w ! self)) @ ''>'' @ py_str w v
                     @ ''</'' @ t @ ''>''"
    using k by (simp add: r DOMCitizen_str_def content_text_def)
next
  assume c: "ocls (heap w ! self) = C_Tag i n CompositeTag t"
  have a: "list_all (arg_ok w) (map AVal vs)"
    using assms(4) by (induction vs) (simp_all add: other_value_val_ok)
  have d: "list_all decodable (map AVal vs)" by (simp add: list_all_iff decodable_def)
  obtain res w' where r0: "CompositeTag_call self (map AVal vs) w = (res, w')"
    by (cases "CompositeTag_call self (map AVal vs) w")
  from CompositeTag_call_ok [OF assms(1,2) c a r0] d assms(5)
  obtain r where "res = Inr r" by blast
  then have r: "CompositeTag_call self (map AVal vs) w = (Inr r, w')" using r0 by simp
  note k = CompositeTag_call_ok [OF assms(1,2) c a r]
  then have "list_all2 (matches w') (map (key_of w) (map AVal vs)) (o_children (heap w' ! r))"
    by (simp add: call_entry_ok_def key_of_def)
  then have "o_children (heap w' ! r) = vs"
    using assms(4) by (rule matches_other_values [rotated])
  moreover have "concat (map (content_text w \<circ> AVal) vs) = concat (map (py_str w) vs)"
    by (induction vs) (simp_all add: content_text_def)
  ultimately show "case CompositeTag_call self (map AVal vs) w of
               (Inl e, w') \<Rightarrow> False
             | (Inr r, w') \<Rightarrow>
                 o_children (heap w' ! r) = vs \<and>
                 DOMCitizen_str w' r =
                   ''<'' @ t @ fmt_props (o_props (heap w ! self)) @ ''>''
                     @ concat (map (py_str w) vs) @ ''</'' @ t @ ''>''"
    using k by (simp add: r DOMCitizen_str_def)
qed

text \<open>\<open>Div()(5, None, -120)\<close> in a fresh process:\<close>

theorem other_content_accepted_witness:
  "wf_world world1 \<and> div0 < length (heap world1) \<and> other_value VNone \<and>
   list_all other_value [VInt 5, VNone, VInt (- 120)] \<and>
   ''self'' \<notin> fst ` set (o_props (heap world1 ! div0)) \<and>
   ocls (heap world1 ! div0) = C_Tag 0 ''Div'' CompositeTag ''div'' \<and>
   (case CompositeTag_call div0 (map AVal [VInt 5, VNone, VInt (- 120)]) world1 of
      (Inl e, w') \<Rightarrow> False
    | (Inr r, w') \<Rightarrow>
        o_children (heap w' ! r) = [VInt 5, VNone, VInt (- 120)] \<and>
        DOMCitizen_str w' r = ''<div>5None-120</div>'')"
proof -
  have 1: "div0 < length (heap world1)" "other_value VNone"
    "list_all other_value [VInt 5, VNone, VInt (- 120)]"
    "ocls (heap world1 ! div0) = C_Tag 0 ''Div'' CompositeTag ''div''"
    "fmt_props (o_props (heap world1 ! div0)) = []"
    "''self'' \<notin> fst ` set (o_props (heap world1 ! div0))"
    by (simp_all add: heap_world1 div0_raw_b mk_obj_def fmt_props_def)
  have 2: "concat (map (py_str world1) [VInt 5, VNone, VInt (- 120)]) = ''5None-120''"
    by code_simp
  show ?thesis
    using other_content_accepted [OF wf_world1 1(1,2,3,6), of 0 "''Div''" "''div''"] wf_world1 1
    unfolding 2 by (auto split: prod.splits sum.splits)
qed

text \<open>\<open>Div()(5)\<close> raises nothing and renders the number:\<close>

theorem other_content_accepted_counterexample:
  "(case CompositeTag_call div0 [AVal (VInt 5)] world1 of
      (Inl e, w') \<Rightarrow> False
    | (Inr r, w') \<Rightarrow> DOMCitizen_str w' r = ''<div>5</div>'')"
  by code_simp

lemma isinstance_iff: "isinstance c k \<longleftrightarrow> c = k"
  by (cases c) (auto simp: isinstance_def)

text \<open>
  C3. In a well-formed process state, the stored hash of every node is the hash of its
  rendered text; two nodes are equal (\<open>==\<close>) exactly when they are of the same class and
  their rendered texts are identical, whatever their attributes, children and identity;
  equal nodes have equal hashes; and two nodes of the same class of the module (not the
  copy of a class that a call makes) with the same value and the same attributes, which is
  what a constructor makes of equal arguments, are equal.
\<close>

theorem eq_same_class_html:
  assumes "wf_world w" "a < length (heap w)" "b < length (heap w)"
  shows "DOMCitizen_hash w a = hash_str w (DOMCitizen_str w a) \<and>
         (DOMCitizen_eq w a b \<longleftrightarrow>
            ocls (heap w ! b) = ocls (heap w ! a) \<and> DOMCitizen_str w a = DOMCitizen_str w b) \<and>
         (DOMCitizen_eq w a b \<longrightarrow> DOMCitizen_hash w a = DOMCitizen_hash w b) \<and>
         (ocls (heap w ! b) = ocls (heap w ! a) \<and> \<not> is_clone (ocls (heap w ! a)) \<and>
          o_value (heap w ! a) = o_value (heap w ! b) \<and>
          o_props (heap w ! a) = o_props (heap w ! b) \<longrightarrow> DOMCitizen_eq w a b)"
proof -
  have o: "obj_ok w (heap w ! a)" "obj_ok w (heap w ! b)"
    using assms by (simp_all add: wf_obj_ok)
  have e: "DOMCitizen_eq w a b \<longleftrightarrow>
        ocls (heap w ! b) = ocls (heap w ! a) \<and> DOMCitizen_str w a = DOMCitizen_str w b"
    by (auto simp: DOMCitizen_eq_def DOMCitizen_str_def isinstance_iff)
  have h: "DOMCitizen_hash w a = hash_str w (DOMCitizen_str w a)"
    "DOMCitizen_hash w b = hash_str w (DOMCitizen_str w b)"
    using o by (simp_all add: obj_ok_def DOMCitizen_hash_def DOMCitizen_str_def)
  have s: "o_html (heap w ! a) = o_html (heap w ! b)"
    if c: "ocls (heap w ! b) = ocls (heap w ! a)" "\<not> is_clone (ocls (heap w ! a))"
      and v: "o_value (heap w ! a) = o_value (heap w ! b)"
      and p: "o_props (heap w ! a) = o_props (heap w ! b)"
  proof (cases "ocls (heap w ! a)")
    case (C_Tag i n k t)
    then have "i = 0" using c(2) by simp
    then show ?thesis using o c(1) p C_Tag by (cases k) (simp_all add: obj_ok_def)
  qed (use o c(1) v p in \<open>simp_all add: obj_ok_def\<close>)
  show ?thesis using e h s by (auto simp: DOMCitizen_str_def)
qed

lemma wf_world_x: "wf_world world_x"
proof -
  have "wf_world (snd (Div [''x''] [] world0))"
    using cached_class_ok [OF wf_world0, of "''Div''" CompositeTag "''div''" "[''x'']" "[]"
        "fst (Div [''x''] [] world0)" "snd (Div [''x''] [] world0)"]
    by (simp add: Div_def)
  then show ?thesis
    using cached_class_ok [of "snd (Div [''x''] [] world0)" "''Div''" CompositeTag "''div''" "[]"
        "[(''x'', None)]" "fst (Div [] [(''x'', None)] (snd (Div [''x''] [] world0)))" world_x]
    by (simp add: Div_def world_x_def)
qed

lemma heap_world_x:
  "heap world_x =
     [mk_obj hash0 (C_Tag 0 ''Div'' CompositeTag ''div'') ''<div x></div>'' [] [(''x'', None)]
        VNone [],
      mk_obj hash0 (C_Tag 0 ''Div'' CompositeTag ''div'') ''<div x></div>'' [] [(''x'', None)]
        VNone []]"
  by code_simp

lemma div_x_kx: "div_x = 0" "div_kx = 1"
  by code_simp+

lemma heap_world_a:
  "heap world_a =
     [mk_obj hash0 C_Text ''a'' ''a'' [] VNone [], mk_obj hash0 C_RawText ''a'' ''a'' [] VNone []]"
  by code_simp

lemma text_a_raw_a: "text_a = 0" "raw_a = 1"
  by code_simp+

text \<open>\<open>Div("x")\<close> and \<open>Div(x=None)\<close> are two nodes of the class \<open>Div\<close> and render alike:\<close>

theorem eq_same_class_html_witness:
  "wf_world world_x \<and> div_x < length (heap world_x) \<and> div_kx < length (heap world_x) \<and>
   div_x \<noteq> div_kx \<and>
   DOMCitizen_hash world_x div_x = hash_str world_x (DOMCitizen_str world_x div_x) \<and>
   DOMCitizen_eq world_x div_x div_kx \<and>
   DOMCitizen_hash world_x div_x = DOMCitizen_hash world_x div_kx"
proof -
  have 1: "div_x < length (heap world_x)" "div_kx < length (heap world_x)" "div_x \<noteq> div_kx"
    "ocls (heap world_x ! div_kx) = ocls (heap world_x ! div_x)"
    "DOMCitizen_str world_x div_x = DOMCitizen_str world_x div_kx"
    by (simp_all add: heap_world_x div_x_kx mk_obj_def DOMCitizen_str_def)
  note t = eq_same_class_html [OF wf_world_x 1(1,2)]
  have a: "DOMCitizen_hash world_x div_x = hash_str world_x (DOMCitizen_str world_x div_x)"
    using t by (rule conjunct1)
  have b: "DOMCitizen_eq world_x div_x div_kx" using t 1(4,5) by blast
  have c: "DOMCitizen_hash world_x div_x = DOMCitizen_hash world_x div_kx" using t b by blast
  show ?thesis using wf_world_x 1(1,2,3) a b c by (intro conjI)
qed

text \<open>
  \<open>_Text("a")\<close> and \<open>_RawText("a")\<close> render alike and are not equal: neither is an
  instance of the class of the other.
\<close>

theorem eq_same_class_html_counterexample:
  "DOMCitizen_str world_a text_a = DOMCitizen_str world_a raw_a \<and>
   \<not> DOMCitizen_eq world_a text_a raw_a \<and> \<not> DOMCitizen_eq world_a raw_a text_a"
  by (simp add: heap_world_a text_a_raw_a DOMCitizen_str_def DOMCitizen_eq_def isinstance_def
      mk_obj_def)

text \<open>
  Two calls of a tag constructor with equal arguments give equal nodes with equal hashes,
  whatever happened between the calls.
\<close>

lemma class_entry_eq:
  assumes "wf_world w" "class_entry_ok w (C_Tag 0 n b t) k r1"
    "class_entry_ok w (C_Tag 0 n b t) k r2"
  shows "DOMCitizen_eq w r1 r2 \<and> DOMCitizen_hash w r1 = DOMCitizen_hash w r2"
proof -
  have "o_html (heap w ! r1) = o_html (heap w ! r2)"
    using class_entry_html [OF assms(1,2)] class_entry_html [OF assms(1,3)] assms(2,3)
    by (simp add: class_entry_ok_def)
  moreover have "obj_ok w (heap w ! r1)" "obj_ok w (heap w ! r2)"
    using assms by (simp_all add: class_entry_ok_def wf_obj_ok)
  ultimately show ?thesis using assms(2,3)
    by (simp add: DOMCitizen_eq_def DOMCitizen_hash_def isinstance_iff class_entry_ok_def
        obj_ok_def)
qed

lemma constructor_equal_args:
  assumes "wf_world w" "cached_class (C_Tag 0 n b t) attrs kw w = (Inr r1, w1)"
    "extends w1 w2" "wf_world w2" "cached_class (C_Tag 0 n b t) attrs kw w2 = (Inr r2, w3)"
  shows "DOMCitizen_eq w3 r1 r2 \<and> DOMCitizen_hash w3 r1 = DOMCitizen_hash w3 r2"
proof -
  note a = cached_class_ok [OF assms(1,2)]
  note b = cached_class_ok [OF assms(4,5)]
  have "extends w1 w3" using assms(3) b by (auto intro: extends_trans)
  then have 1: "class_entry_ok w3 (C_Tag 0 n b t) (attrs, kw) r1"
    using a by (auto intro: extends_class_entry_ok)
  have 2: "wf_world w3" "class_entry_ok w3 (C_Tag 0 n b t) (attrs, kw) r2"
    using b by simp_all
  show ?thesis by (rule class_entry_eq [OF 2(1) 1 2(2)])
qed

subsection \<open>Consecutive calls\<close>

lemma lru_hit_head: "map_of (lru_hit c k r) k = Some r"
  by (simp add: lru_hit_def)

lemma lru_store_head: "map_of (lru_store c k r) k = Some r"
  by (simp add: lru_store_def)

lemma lru_cache_again:
  assumes g: "\<And>h w. get (upd h w) = h (get w)"
    and c: "lru_cache get upd k f w = (r, w')"
  shows "fst (lru_cache get upd k f' w') = r"
  using c
proof (cases rule: lru_cache_cases)
  case hit
  then show ?thesis by (simp add: lru_cache_def g lru_hit_head)
next
  case (miss w1)
  then show ?thesis by (simp add: lru_cache_def g lru_store_head)
qed

lemma lru_cache_exc_again:
  assumes g: "\<And>h w. get (upd h w) = h (get w)"
    and c: "lru_cache_exc get upd k f w = (Inr r, w')"
  shows "fst (lru_cache_exc get upd k f' w') = Inr r"
  using c
proof (cases rule: lru_cache_exc_cases)
  case (hit q)
  then show ?thesis by (simp add: lru_cache_exc_def g lru_hit_head)
next
  case (miss q w1)
  then show ?thesis by (simp add: lru_cache_exc_def g lru_store_head)
next
  case (exc e)
  then show ?thesis by simp
qed

text \<open>
  The constructors and the calls under \<open>lru_cache\<close>: the second of two consecutive calls
  with equal arguments returns the object of the first.
\<close>

lemma Text_again: "fst (Text s (snd (Text s w))) = fst (Text s w)"
  unfolding Text_def by (rule lru_cache_again [where w = w]) simp_all

lemma RawText_again: "fst (RawText s (snd (RawText s w))) = fst (RawText s w)"
  unfolding RawText_def by (rule lru_cache_again [where w = w]) simp_all

lemma Comment_again: "fst (Comment s (snd (Comment s w))) = fst (Comment s w)"
  unfolding Comment_def by (rule lru_cache_again [where w = w]) simp_all

lemma cached_class_again:
  assumes "cached_class c attrs kw w = (Inr r, w')"
  shows "fst (cached_class c attrs kw w') = Inr r"
  using assms unfolding cached_class_def
  by (rule lru_cache_exc_again [rotated]) simp

lemma CompositeTag_call_again:
  assumes "wf_world w" "self < length (heap w)" "ocls (heap w ! self) = C_Tag i n CompositeTag t"
    "list_all (arg_ok w) as" "CompositeTag_call self as w = (Inr r, w')"
  shows "fst (CompositeTag_call self as w') = Inr r"
proof -
  have e: "extends w w'" using CompositeTag_call_ok [OF assms] by simp
  have "key_of w' (AVal (VNode self)) = key_of w (AVal (VNode self))"
    using assms(2) by (intro extends_key_of [OF e]) simp
  moreover have "map (key_of w') as = map (key_of w) as"
    using assms(4) by (induction as) (simp_all add: extends_key_of [OF e])
  ultimately show ?thesis
    using assms(5) unfolding CompositeTag_call_def
    by (simp only:) (rule lru_cache_exc_again [where w = w], simp_all)
qed

lemma SingleChildTag_call_again:
  assumes "wf_world w" "self < length (heap w)" "ocls (heap w ! self) = C_Tag i n SingleChildTag t"
    "arg_ok w a" "SingleChildTag_call self a w = (Inr r, w')"
  shows "fst (SingleChildTag_call self a w') = Inr r"
proof -
  have e: "extends w w'" using SingleChildTag_call_ok [OF assms] by simp
  have "key_of w' (AVal (VNode self)) = key_of w (AVal (VNode self))"
    using assms(2) by (intro extends_key_of [OF e]) simp
  moreover have "key_of w' a = key_of w a"
    using assms(4) by (rule extends_key_of [OF e])
  ultimately show ?thesis
    using assms(5) unfolding SingleChildTag_call_def
    by (simp only:) (rule lru_cache_exc_again [where w = w], simp_all)
qed

text \<open>
  C7. \<open>Sub\<close> is the one tag class of the module without the \<open>lru_cache\<close> decorator: each
  call of \<open>Sub\<close> makes a new object, so two consecutive calls with equal arguments never
  return the identical object.
\<close>

theorem Sub_not_memoized:
  "case Sub attrs kw w of
     (Inl e, w1) \<Rightarrow> ''self'' \<in> fst ` set kw
   | (Inr r, w1) \<Rightarrow>
       (case Sub attrs kw w1 of
          (Inl e, w2) \<Rightarrow> False
        | (Inr q, w2) \<Rightarrow> q = Suc r \<and> q \<noteq> r)"
  by (simp add: Sub_def instantiate_def create_CompositeTag_eq del: create.simps)

text \<open>\<open>Sub() is Sub()\<close> in a fresh process, and \<open>Div() is Div()\<close>:\<close>

lemma Sub_twice:
  "fst (Sub [] [] world0) = Inr 0 \<and> fst (Sub [] [] (snd (Sub [] [] world0))) = Inr 1"
  by (simp add: Sub_def instantiate_def create_CompositeTag_eq world0_def init_world_def
      del: create.simps)

lemma Div_twice:
  "fst (Div [] [] world0) = Inr 0 \<and> fst (Div [] [] (snd (Div [] [] world0))) = Inr 0"
  by code_simp

end
